theory Spec2Isabelle
  imports Main
begin

section \<open>JavaScript values and string primitives used by PlanDialog.js\<close>

text \<open>
  Strings are lists of characters; \<open>length\<close> is JavaScript's \<open>.length\<close>.
  The only numbers the script itself produces are the literal \<open>0\<close> and whatever a
  caller might pass to \<open>Number.isNaN\<close>, so a number is either the not-a-number
  value or a finite one.
\<close>

datatype js_error = TypeError

datatype jsnum = NaN | Fin int

datatype jsval = Undefined | Num jsnum | Str string

text \<open>\<open>Number.isNaN(v)\<close>: true only for a value of type Number that is NaN.
  No conversion is applied to the argument.\<close>

fun Number_isNaN :: "jsval \<Rightarrow> bool" where
  "Number_isNaN (Num NaN) = True"
| "Number_isNaN _ = False"

text \<open>\<open>s.indexOf(c)\<close> and \<open>s.lastIndexOf(c)\<close> for a one-character pattern;
  \<open>-1\<close> when the character does not occur.\<close>

fun indexOf :: "char \<Rightarrow> string \<Rightarrow> int" where
  "indexOf c [] = -1"
| "indexOf c (x # xs) =
     (if x = c then 0 else (let i = indexOf c xs in if i < 0 then -1 else i + 1))"

definition lastIndexOf :: "char \<Rightarrow> string \<Rightarrow> int" where
  "lastIndexOf c s =
     (let i = indexOf c (rev s) in if i < 0 then -1 else int (length s) - 1 - i)"

text \<open>\<open>s.split(c)\<close> with a one-character separator: the pieces between all
  occurrences of the separator; a string without it is the only piece.\<close>

fun split_str :: "char \<Rightarrow> string \<Rightarrow> string list" where
  "split_str c [] = [[]]"
| "split_str c (x # xs) =
     (if x = c then [] # split_str c xs
      else (let ps = split_str c xs in (x # hd ps) # tl ps))"

text \<open>\<open>s.substring(a, b)\<close>: both indices are clamped to the length and swapped
  when out of order.\<close>

definition substring :: "string \<Rightarrow> nat \<Rightarrow> nat \<Rightarrow> string" where
  "substring s a b =
     (let a' = min a (length s); b' = min b (length s);
          lo = min a' b'; hi = max a' b'
      in take (hi - lo) (drop lo s))"

text \<open>\<open>s.slice(start)\<close>: a negative start counts from the end.\<close>

definition slice :: "string \<Rightarrow> int \<Rightarrow> string" where
  "slice s start =
     (if start < 0 then drop (nat (max (int (length s) + start) 0)) s
      else drop (nat start) s)"

text \<open>\<open>s.includes(pat)\<close>: \<open>pat\<close> occurs somewhere in \<open>s\<close>.\<close>

fun includes_str :: "string \<Rightarrow> string \<Rightarrow> bool" where
  "includes_str [] pat = (pat = [])"
| "includes_str (x # xs) pat = (take (length pat) (x # xs) = pat \<or> includes_str xs pat)"

section \<open>Currency normalisation\<close>

text \<open>
  \<open>dollarsToCents\<close> (lines 107-127). \<open>money[1]\<close> is \<open>undefined\<close> when the split has
  fewer than two pieces, and \<open>cents.length\<close> would then throw; that branch is kept as
  \<open>Inl TypeError\<close>. The last \<open>return cost + '00'\<close> is also where an \<open>if\<close> chain
  without a matching branch falls through to. The function also leaves its three
  working values in undeclared globals, which nothing else reads.
\<close>

definition dollarsToCents :: "string \<Rightarrow> js_error + string" where
  "dollarsToCents cost =
     (let costString = cost @ '''' in
      if length costString = 0 then Inr ''''
      else if indexOf CHR ''.'' costString \<ge> 0 then
        (case split_str CHR ''.'' costString of
           dollars # cents # _ \<Rightarrow>
             if length cents > 2 then Inr (dollars @ substring cents 0 2)
             else if length cents = 0 then Inr (dollars @ ''00'')
             else if length cents = 1 then Inr (dollars @ cents @ ''0'')
             else if length cents = 2 then Inr (dollars @ cents)
             else Inr (cost @ ''00'')
         | _ \<Rightarrow> Inl TypeError)
      else Inr (cost @ ''00''))"

section \<open>Regular expressions\<close>

text \<open>
  The only pattern in the script is the literal
  \<^verbatim>\<open>/^([0-9]{2}\/[0-9]{2}\/[0-9]{4})+$/\<close>. Its constructs are a character range, a
  literal character, concatenation, bounded repetition \<open>{n}\<close> and \<open>+\<close>. With \<open>^\<close> in
  front and \<open>$\<close> at the end (no flags) \<open>test\<close> asks whether the whole string
  matches, which is decided here by taking the derivative of the pattern along the
  string. \<open>Never\<close>, \<open>Eps\<close> and \<open>Alt\<close> only arise as derivatives.
\<close>

datatype rexp =
    Never
  | Eps
  | Lit char
  | Range char char
  | Cat rexp rexp
  | Alt rexp rexp
  | Rep nat rexp
  | Plus rexp

definition in_range :: "char \<Rightarrow> char \<Rightarrow> char \<Rightarrow> bool" where
  "in_range lo hi c = ((of_char lo :: nat) \<le> of_char c \<and> (of_char c :: nat) \<le> of_char hi)"

fun nullable :: "rexp \<Rightarrow> bool" where
  "nullable Never = False"
| "nullable Eps = True"
| "nullable (Lit c) = False"
| "nullable (Range lo hi) = False"
| "nullable (Cat r s) = (nullable r \<and> nullable s)"
| "nullable (Alt r s) = (nullable r \<or> nullable s)"
| "nullable (Rep n r) = (n = 0 \<or> nullable r)"
| "nullable (Plus r) = nullable r"

fun deriv :: "char \<Rightarrow> rexp \<Rightarrow> rexp" where
  "deriv c Never = Never"
| "deriv c Eps = Never"
| "deriv c (Lit d) = (if c = d then Eps else Never)"
| "deriv c (Range lo hi) = (if in_range lo hi c then Eps else Never)"
| "deriv c (Cat r s) =
     (if nullable r then Alt (Cat (deriv c r) s) (deriv c s) else Cat (deriv c r) s)"
| "deriv c (Alt r s) = Alt (deriv c r) (deriv c s)"
| "deriv c (Rep 0 r) = Never"
| "deriv c (Rep (Suc n) r) = Cat (deriv c r) (Rep n r)"
| "deriv c (Plus r) = Cat (deriv c r) (Alt Eps (Plus r))"

fun derivs :: "rexp \<Rightarrow> string \<Rightarrow> rexp" where
  "derivs r [] = r"
| "derivs r (c # cs) = derivs (deriv c r) cs"

definition regexp_test :: "rexp \<Rightarrow> string \<Rightarrow> bool" where
  "regexp_test r s = nullable (derivs r s)"

definition digit :: rexp where
  "digit = Range CHR ''0'' CHR ''9''"

text \<open>The group \<^verbatim>\<open>([0-9]{2}\/[0-9]{2}\/[0-9]{4})\<close> and the whole pattern.\<close>

definition date_group :: rexp where
  "date_group =
     Cat (Rep 2 digit) (Cat (Lit CHR ''/'')
       (Cat (Rep 2 digit) (Cat (Lit CHR ''/'') (Rep 4 digit))))"

definition date_regexp :: rexp where
  "date_regexp = Plus date_group"

section \<open>The dialog: fields, tips and requests\<close>

datatype field =
    IdFld | CouponCode | PlanTypeEnum | HiddenPlanComment | CouponAppliedMessage
  | ListPriceMonthlyCredit | DiscountedPriceMonthlyCredit | Redemptions
  | FeaturesProvidedBitmap | PlanCreatedAt | CouponExpiresDate

record newPlanData =
  couponCode :: string
  planTypeEnum :: string
  couponAppliedMessage :: string
  hiddenPlanComment :: string
  listPriceMonthlyCredit :: string
  discountedPriceMonthlyCredit :: string
  featuresProvidedBitmap :: string
  couponExpiresDate :: string

text \<open>A call \<open>$.getJSON(url, data, ...)\<close>: the URL and the data sent.\<close>

datatype request = GetJSON string newPlanData

text \<open>
  What the submit handler reads and writes: the value of each field (\<open>o.val()\<close>, a
  string for the text inputs of the form), the fields that carry the class
  \<open>ui-state-error\<close>, the text and highlight of the tips paragraph, the delays of the
  timers started by \<open>setTimeout\<close>, \<open>window.location.origin\<close>, the requests issued so
  far, and the global \<open>expires\<close>.
\<close>

record page =
  fieldVal :: "field \<Rightarrow> string"
  errorClass :: "field set"
  tipsText :: string
  tipsHighlight :: bool
  timeouts :: "nat list"
  origin :: string
  requests :: "request list"
  expires :: string

definition allFields :: "field set" where
  "allFields = {IdFld, CouponCode, PlanTypeEnum, HiddenPlanComment, CouponAppliedMessage,
     ListPriceMonthlyCredit, DiscountedPriceMonthlyCredit, Redemptions,
     FeaturesProvidedBitmap, PlanCreatedAt, CouponExpiresDate}"

text \<open>Decimal rendering of a number inside a template literal.\<close>

fun show_nat :: "nat \<Rightarrow> string" where
  "show_nat n =
     (if n < 10 then [''0123456789'' ! n]
      else show_nat (n div 10) @ [''0123456789'' ! (n mod 10)])"

declare show_nat.simps [simp del]

definition updateTips :: "string \<Rightarrow> page \<Rightarrow> page" where
  "updateTips t p = p\<lparr>tipsText := t, tipsHighlight := True, timeouts := timeouts p @ [500]\<rparr>"

definition checkLength :: "field \<Rightarrow> string \<Rightarrow> nat \<Rightarrow> nat \<Rightarrow> page \<Rightarrow> bool \<times> page" where
  "checkLength o' n min' max' p =
     (if length (fieldVal p o') > max' \<or> length (fieldVal p o') < min' then
        (False, updateTips (''Length of '' @ n @ '' must be between '' @ show_nat min'
                            @ '' and '' @ show_nat max' @ ''.'')
                  (p\<lparr>errorClass := insert o' (errorClass p)\<rparr>))
      else (True, p))"

definition checkNumber :: "field \<Rightarrow> string \<Rightarrow> page \<Rightarrow> bool \<times> page" where
  "checkNumber o' n p =
     (if Number_isNaN (Str (fieldVal p o')) then
        (False, updateTips (n @ '' must be a number.'')
                  (p\<lparr>errorClass := insert o' (errorClass p)\<rparr>))
      else (True, p))"

definition checkRegexp :: "field \<Rightarrow> rexp \<Rightarrow> string \<Rightarrow> page \<Rightarrow> bool \<times> page" where
  "checkRegexp o' regexp n p =
     (if \<not> regexp_test regexp (fieldVal p o') then
        (False, updateTips n (p\<lparr>errorClass := insert o' (errorClass p)\<rparr>))
      else (True, p))"

text \<open>\<open>valid && check(...)\<close>: the check is called only when \<open>valid\<close> is still true.\<close>

definition andAlso :: "bool \<Rightarrow> (page \<Rightarrow> bool \<times> page) \<Rightarrow> page \<Rightarrow> bool \<times> page" where
  "andAlso valid chk p = (if valid then chk p else (False, p))"

text \<open>
  \<open>saveNewPlan\<close> (lines 129-164). \<open>momentFormat\<close> stands for
  \<open>moment(s, 'MM/DD/YYYY HH:mm').format()\<close> of the moment.js library, which is not part
  of the repository. The callbacks of the request run after the handler has returned and
  are not part of the pass.
\<close>

definition saveNewPlan :: "(string \<Rightarrow> string) \<Rightarrow> page \<Rightarrow> js_error + bool \<times> page" where
  "saveNewPlan momentFormat p0 =
     (let p1 = p0\<lparr>errorClass := errorClass p0 - allFields\<rparr>;
          p2 = p1\<lparr>expires := ''''\<rparr>;
          (v1, p3) = andAlso True (checkLength CouponCode ''Coupon Code'' 3 128) p2;
          (v2, p4) = andAlso v1 (checkNumber ListPriceMonthlyCredit ''List Price Monthly'') p3;
          (v3, p5) = andAlso v2
                       (checkNumber DiscountedPriceMonthlyCredit ''Discounted Price Monthly'') p4;
          (valid, p6) =
            (if length (fieldVal p5 CouponExpiresDate) \<noteq> 0 then
               (let (v4, q) = andAlso v3
                      (checkRegexp CouponExpiresDate date_regexp
                         ''Expiration date must use this format: 12/25/2022'') p5
                in (v4, if v4 then q\<lparr>expires := momentFormat (fieldVal q CouponExpiresDate)\<rparr>
                        else q))
             else (v3, p5))
      in if valid then
           (case dollarsToCents (fieldVal p6 ListPriceMonthlyCredit) of
              Inl e \<Rightarrow> Inl e
            | Inr listPrice \<Rightarrow>
                (case dollarsToCents (fieldVal p6 DiscountedPriceMonthlyCredit) of
                   Inl e \<Rightarrow> Inl e
                 | Inr discountedPrice \<Rightarrow>
                     Inr (valid, p6\<lparr>requests := requests p6 @
                       [GetJSON (origin p6 @ ''/apis/v1/createNewPlan'')
                          \<lparr>couponCode = fieldVal p6 CouponCode,
                           planTypeEnum = fieldVal p6 PlanTypeEnum,
                           couponAppliedMessage = fieldVal p6 CouponAppliedMessage,
                           hiddenPlanComment = fieldVal p6 HiddenPlanComment,
                           listPriceMonthlyCredit = listPrice,
                           discountedPriceMonthlyCredit = discountedPrice,
                           featuresProvidedBitmap = fieldVal p6 FeaturesProvidedBitmap,
                           couponExpiresDate = expires p6\<rparr>]\<rparr>)))
         else Inr (valid, p6))"

section \<open>The limit parameter of the page URL\<close>

text \<open>\<open>getLimitFromUrl\<close> (lines 222-229), as a function of \<open>window.location.href\<close>.\<close>

definition getLimitFromUrl :: "string \<Rightarrow> jsval" where
  "getLimitFromUrl href =
     (let newUrl = href in
      if includes_str newUrl ''?limit='' then
        Str (slice newUrl (lastIndexOf CHR ''='' newUrl + 1))
      else Num (Fin 0))"

section \<open>Rolling up older versions\<close>

text \<open>
  A table row as the handler sees it: the \<open>innerText\<close> of its cells and its inline
  \<open>display\<close> style (\<open>css("display", "")\<close> removes the inline value). A row is shown
  unless its display is \<open>none\<close>. The text of a cell is taken not to depend on the
  display of its row.
\<close>

record row =
  cells :: "string list"
  display :: string

type_synonym table = "row list"

definition visible :: "row \<Rightarrow> bool" where
  "visible r = (display r \<noteq> ''none'')"

text \<open>
  \<open>hashmap\<close> starts as the object literal \<open>{}\<close>, so \<open>key in hashmap\<close> is also true
  for the property names inherited from \<open>Object.prototype\<close>. The own keys are kept as a
  set.
\<close>

definition object_prototype_keys :: "string list" where
  "object_prototype_keys =
     [''constructor'', ''hasOwnProperty'', ''isPrototypeOf'', ''propertyIsEnumerable'',
      ''toLocaleString'', ''toString'', ''valueOf'', ''__proto__'',
      ''__defineGetter__'', ''__defineSetter__'', ''__lookupGetter__'', ''__lookupSetter__'']"

definition key_in :: "string \<Rightarrow> string set \<Rightarrow> bool" where
  "key_in key hashmap = (key \<in> hashmap \<or> key \<in> set object_prototype_keys)"

text \<open>
  The loop of the change handler (lines 267-285), from index \<open>i\<close>. A row without a
  second or third cell makes \<open>row.cells[..].innerText\<close> throw, which ends the handler
  with the table as it is at that moment. The result is the error, if any, and the table.
\<close>

function rollup_loop :: "bool \<Rightarrow> string set \<Rightarrow> nat \<Rightarrow> table \<Rightarrow> js_error option \<times> table" where
  "rollup_loop checked hashmap i table =
     (if i < length table then
        (let row = table ! i in
         if length (cells row) < 3 then (Some TypeError, table)
         else
           (let coupon = cells row ! 1;
                type = cells row ! 2;
                key = coupon @ ''~'' @ type
            in if checked then
                 (if key_in key hashmap then
                    rollup_loop checked hashmap (i + 1) (table[i := row\<lparr>display := ''none''\<rparr>])
                  else rollup_loop checked (insert key hashmap) (i + 1) table)
               else rollup_loop checked hashmap (i + 1) (table[i := row\<lparr>display := ''''\<rparr>])))
      else (None, table))"
  by pat_completeness auto
termination
  by (relation "measure (\<lambda>(checked, hashmap, i, table). length table - i)") auto

declare rollup_loop.simps [simp del]

definition rollupOlderVersions :: "bool \<Rightarrow> table \<Rightarrow> js_error option \<times> table" where
  "rollupOlderVersions checked table = rollup_loop checked {} 1 table"

section \<open>Notions used to state the properties\<close>

text \<open>The key the handler builds for a row, and the two updates it applies to a row.\<close>

definition rowKey :: "row \<Rightarrow> string" where
  "rowKey r = cells r ! 1 @ ''~'' @ cells r ! 2"

definition hide :: "row \<Rightarrow> row" where
  "hide r = r\<lparr>display := ''none''\<rparr>"

definition unhide :: "row \<Rightarrow> row" where
  "unhide r = r\<lparr>display := ''''\<rparr>"

text \<open>Rows the loop can read: each has the cells with index 1 and 2.\<close>

definition well_formed :: "row list \<Rightarrow> bool" where
  "well_formed rs = (\<forall>r \<in> set rs. 3 \<le> length (cells r))"

text \<open>The data rows of a table are the rows after the first; \<open>seen_before t i\<close> says
  that a data row above row \<open>i\<close> has the key of row \<open>i\<close>.\<close>

definition dataRows :: "table \<Rightarrow> row list" where
  "dataRows t = drop 1 t"

definition seen_before :: "table \<Rightarrow> nat \<Rightarrow> bool" where
  "seen_before t i = (rowKey (t ! i) \<in> rowKey ` set (take (i - 1) (dataRows t)))"

text \<open>The effect of the loop on a list of rows when the box is checked, as a recursion on
  the list; \<open>rollup_loop_collapse\<close> below shows that the loop computes it.\<close>

fun collapse_rows :: "string set \<Rightarrow> row list \<Rightarrow> row list" where
  "collapse_rows seen [] = []"
| "collapse_rows seen (r # rs) =
     (if rowKey r \<in> seen then hide r # collapse_rows seen rs
      else r # collapse_rows (insert (rowKey r) seen) rs)"

text \<open>
  The strings a pattern stands for, to say what the derivative test decides: \<open>conc\<close>
  joins a string of one set with a string of another, \<open>lpow n\<close> joins \<open>n\<close> strings of
  a set.
\<close>

definition conc :: "string set \<Rightarrow> string set \<Rightarrow> string set" where
  "conc A B = {u @ v | u v. u \<in> A \<and> v \<in> B}"

fun lpow :: "nat \<Rightarrow> string set \<Rightarrow> string set" where
  "lpow 0 A = {[]}"
| "lpow (Suc n) A = conc A (lpow n A)"

fun lang :: "rexp \<Rightarrow> string set" where
  "lang Never = {}"
| "lang Eps = {[]}"
| "lang (Lit c) = {[c]}"
| "lang (Range lo hi) = {[c] | c. in_range lo hi c}"
| "lang (Cat r s) = conc (lang r) (lang s)"
| "lang (Alt r s) = lang r \<union> lang s"
| "lang (Rep n r) = lpow n (lang r)"
| "lang (Plus r) = (\<Union>n. lpow (Suc n) (lang r))"

text \<open>A single date as the message of the check shows it: two digits, a slash, two
  digits, a slash, four digits.\<close>

definition is_digit :: "char \<Rightarrow> bool" where
  "is_digit c = in_range CHR ''0'' CHR ''9'' c"

fun date_shape :: "string \<Rightarrow> bool" where
  "date_shape [m1, m2, s1, d1, d2, s2, y1, y2, y3, y4] =
     (is_digit m1 \<and> is_digit m2 \<and> s1 = CHR ''/'' \<and> is_digit d1 \<and> is_digit d2
      \<and> s2 = CHR ''/'' \<and> is_digit y1 \<and> is_digit y2 \<and> is_digit y3 \<and> is_digit y4)"
| "date_shape _ = False"

text \<open>The table the change handler leaves behind.\<close>

definition rolled :: "bool \<Rightarrow> table \<Rightarrow> table" where
  "rolled checked t = snd (rollupOlderVersions checked t)"

text \<open>The messages of the two checks that can fail.\<close>

definition length_tip :: string where
  "length_tip = ''Length of Coupon Code must be between 3 and 128.''"

definition date_tip :: string where
  "date_tip = ''Expiration date must use this format: 12/25/2022''"

text \<open>An empty form on a page that has issued no request, and the forms of the
  scenarios discussed below.\<close>

definition blank_page :: page where
  "blank_page = \<lparr>fieldVal = (\<lambda>f. ''''), errorClass = {}, tipsText = '''',
     tipsHighlight = False, timeouts = [], origin = ''https://example.org'',
     requests = [], expires = ''''\<rparr>"

definition fill :: "(field \<times> string) list \<Rightarrow> page \<Rightarrow> page" where
  "fill kvs p = p\<lparr>fieldVal := (\<lambda>f. case map_of kvs f of Some v \<Rightarrow> v | None \<Rightarrow> fieldVal p f)\<rparr>"

definition save10_page :: page where
  "save10_page = fill [(CouponCode, ''SAVE10''), (ListPriceMonthlyCredit, ''19.99''),
     (DiscountedPriceMonthlyCredit, ''9.5'')] blank_page"

definition short_code_page :: page where
  "short_code_page = fill [(CouponCode, ''ab''), (CouponExpiresDate, ''xyz'')] blank_page"

definition two_char_page :: page where
  "two_char_page = fill [(CouponCode, ''ab'')] blank_page"

definition bad_date_page :: page where
  "bad_date_page = fill [(CouponCode, ''SAVE10''), (CouponExpiresDate, ''tomorrow'')] blank_page"

definition abc_price_page :: page where
  "abc_price_page = fill [(CouponCode, ''SAVE10''), (ListPriceMonthlyCredit, ''abc'')] blank_page"

definition doubled_date_page :: page where
  "doubled_date_page =
     fill [(CouponCode, ''SAVE10''), (CouponExpiresDate, ''12/25/202212/25/2022'')] blank_page"

definition mkrow :: "string \<Rightarrow> string \<Rightarrow> string \<Rightarrow> string \<Rightarrow> row" where
  "mkrow i c ty d = \<lparr>cells = [i, c, ty], display = d\<rparr>"

definition header_row :: row where
  "header_row = \<lparr>cells = [''id'', ''coupon'', ''type''], display = ''''\<rparr>"

definition sample_table :: table where
  "sample_table = [header_row, mkrow ''3'' ''A'' ''1'' '''', mkrow ''2'' ''A'' ''1'' '''',
     mkrow ''1'' ''B'' ''1'' '''']"

section \<open>Facts about the string primitives\<close>

lemma indexOf_nonneg: "(indexOf c s \<ge> 0) = (c \<in> set s)"
  by (induction s) (auto simp: Let_def)

lemma split_str_nonempty: "split_str c s \<noteq> []"
  by (induction s) (auto simp: Let_def)

lemma split_str_at: "c \<notin> set d \<Longrightarrow> split_str c (d @ c # rest) = d # split_str c rest"
  by (induction d) (auto simp: Let_def)

lemma split_str_hd: "hd (split_str c s) = takeWhile (\<lambda>x. x \<noteq> c) s"
  by (induction s) (auto simp: Let_def)

section \<open>Currency normalisation: proofs\<close>

lemma cents_cases:
  "(if length cents > 2 then Inr (dollars @ substring cents 0 2)
    else if length cents = 0 then Inr (dollars @ ''00'')
    else if length cents = 1 then Inr (dollars @ cents @ ''0'')
    else if length cents = 2 then Inr (dollars @ cents)
    else Inr (cost @ ''00'')) = (Inr (dollars @ take 2 (cents @ ''00'')) :: js_error + string)"
proof -
  consider "length cents = 0" | "length cents = 1" | "length cents = 2" | "length cents > 2"
    by linarith
  then show ?thesis
  proof cases
    case 1 then show ?thesis by simp
  next
    case 2 then show ?thesis by (cases cents) auto
  next
    case 3 then show ?thesis by simp
  next
    case 4 then show ?thesis by (simp add: substring_def)
  qed
qed

lemma dollarsToCents_dot:
  assumes "CHR ''.'' \<notin> set d"
  shows "dollarsToCents (d @ ''.'' @ rest) =
           Inr (d @ take 2 (takeWhile (\<lambda>x. x \<noteq> CHR ''.'') rest @ ''00''))"
proof -
  obtain q qs where q: "split_str CHR ''.'' rest = q # qs"
    using split_str_nonempty [of "CHR ''.''" rest] by (cases "split_str CHR ''.'' rest") auto
  have hq: "q = takeWhile (\<lambda>x. x \<noteq> CHR ''.'') rest"
    using split_str_hd [of "CHR ''.''" rest] q by simp
  have sp: "split_str CHR ''.'' (d @ ''.'' @ rest) = d # q # qs"
    using split_str_at [OF assms, of rest] q by simp
  have ix: "indexOf CHR ''.'' (d @ ''.'' @ rest) \<ge> 0"
    by (simp add: indexOf_nonneg)
  show ?thesis
    unfolding dollarsToCents_def Let_def
    using ix sp hq by (simp add: cents_cases del: split_str.simps indexOf.simps)
qed

lemma dollarsToCents_nodot:
  assumes "CHR ''.'' \<notin> set s"
  shows "dollarsToCents s = Inr (if s = [] then [] else s @ ''00'')"
proof -
  have "\<not> indexOf CHR ''.'' s \<ge> 0" using assms by (simp add: indexOf_nonneg)
  then show ?thesis by (simp add: dollarsToCents_def)
qed

lemma dollarsToCents_total: "\<exists>r. dollarsToCents s = Inr r \<and> CHR ''.'' \<notin> set r"
proof (cases "CHR ''.'' \<in> set s")
  case True
  then obtain d rest where s: "s = d @ CHR ''.'' # rest" and d: "CHR ''.'' \<notin> set d"
    by (meson split_list_first)
  have "CHR ''.'' \<notin> set (takeWhile (\<lambda>x. x \<noteq> CHR ''.'') rest)"
    by (auto dest: set_takeWhileD)
  then have "CHR ''.'' \<notin> set (take 2 (takeWhile (\<lambda>x. x \<noteq> CHR ''.'') rest @ ''00''))"
    by (auto dest!: in_set_takeD)
  then show ?thesis using dollarsToCents_dot [OF d, of rest] s d by simp
next
  case False
  then show ?thesis using dollarsToCents_nodot [OF False] by auto
qed

text \<open>
  Claim C1. \<open>dollarsToCents\<close> returns the empty string for the empty string; for an
  input \<open>D.F\<close> it returns \<open>D\<close> followed by exactly two characters, the first two of
  \<open>F\<close> when \<open>F\<close> is longer than two and \<open>F\<close> padded with zeros on the right when it is
  shorter, so nothing is ever rounded (when the input has more points, \<open>F\<close> is what
  stands between the first two); for a non-empty input without a point it returns the
  input followed by \<open>00\<close>. It always returns, and the result never contains a point.
\<close>

theorem dollarsToCents_truncates:
  "dollarsToCents '''' = Inr ''''
   \<and> (CHR ''.'' \<notin> set D \<and> CHR ''.'' \<notin> set F \<longrightarrow>
        dollarsToCents (D @ ''.'' @ F) = Inr (D @ take 2 (F @ ''00''))
        \<and> length (take 2 (F @ ''00'')) = 2)
   \<and> (CHR ''.'' \<notin> set D \<longrightarrow>
        dollarsToCents (D @ ''.'' @ rest) =
          Inr (D @ take 2 (takeWhile (\<lambda>c. c \<noteq> CHR ''.'') rest @ ''00'')))
   \<and> (s \<noteq> [] \<and> CHR ''.'' \<notin> set s \<longrightarrow> dollarsToCents s = Inr (s @ ''00''))
   \<and> dollarsToCents ''12.5'' = Inr ''1250''
   \<and> dollarsToCents ''12.345'' = Inr ''1234''
   \<and> dollarsToCents ''12'' = Inr ''1200''
   \<and> (\<exists>r. dollarsToCents u = Inr r \<and> CHR ''.'' \<notin> set r)"
proof -
  have dot: "CHR ''.'' \<notin> set D \<longrightarrow>
        dollarsToCents (D @ ''.'' @ rest) =
          Inr (D @ take 2 (takeWhile (\<lambda>c. c \<noteq> CHR ''.'') rest @ ''00''))" for rest
    using dollarsToCents_dot [of D rest] by simp
  have df: "CHR ''.'' \<notin> set D \<and> CHR ''.'' \<notin> set F \<longrightarrow>
        dollarsToCents (D @ ''.'' @ F) = Inr (D @ take 2 (F @ ''00''))
        \<and> length (take 2 (F @ ''00'')) = 2"
  proof (intro impI, elim conjE)
    assume d: "CHR ''.'' \<notin> set D" and f: "CHR ''.'' \<notin> set F"
    have tw: "takeWhile (\<lambda>c. c \<noteq> CHR ''.'') F = F"
      using f by (induction F) auto
    have "dollarsToCents (D @ ''.'' @ F) = Inr (D @ take 2 (F @ ''00''))"
      by (rule dollarsToCents_dot [OF d, of F, unfolded tw])
    then show "dollarsToCents (D @ ''.'' @ F) = Inr (D @ take 2 (F @ ''00''))
        \<and> length (take 2 (F @ ''00'')) = 2"
      by simp
  qed
  have nodot: "s \<noteq> [] \<and> CHR ''.'' \<notin> set s \<longrightarrow> dollarsToCents s = Inr (s @ ''00'')"
    using dollarsToCents_nodot [of s] by simp
  have e1: "dollarsToCents ''12.5'' = Inr ''1250''"
    using dollarsToCents_dot [of "''12''" "''5''"] by simp
  have e2: "dollarsToCents ''12.345'' = Inr ''1234''"
    using dollarsToCents_dot [of "''12''" "''345''"] by simp
  have e3: "dollarsToCents ''12'' = Inr ''1200''"
    using dollarsToCents_nodot [of "''12''"] by simp
  have e0: "dollarsToCents '''' = Inr ''''"
    using dollarsToCents_nodot [of "''''"] by simp
  show ?thesis
    using e0 df dot [of rest] nodot e1 e2 e3 dollarsToCents_total [of u] by simp
qed

theorem dollarsToCents_truncates_witness:
  "CHR ''.'' \<notin> set ''7'' \<and> CHR ''.'' \<notin> set ''999'' \<and> ''40'' \<noteq> [] \<and> CHR ''.'' \<notin> set ''40''
   \<and> dollarsToCents ''7.999'' = Inr ''799''
   \<and> dollarsToCents ''7.1.5'' = Inr ''710''
   \<and> dollarsToCents ''40'' = Inr ''4000''"
  using dollarsToCents_truncates [of "''7''" "''999''" "''1.5''" "''40''" "''''"] by simp

section \<open>Rolling up older versions: proofs\<close>

lemma proto_keys_no_tilde: "k \<in> set object_prototype_keys \<Longrightarrow> CHR ''~'' \<notin> set k"
  by (auto simp: object_prototype_keys_def)

lemma key_in_own: "key_in (a @ ''~'' @ b) hashmap = (a @ ''~'' @ b \<in> hashmap)"
  using proto_keys_no_tilde [of "a @ ''~'' @ b"] by (auto simp: key_in_def)

lemma rollup_loop_collapse:
  "well_formed (drop i t) \<Longrightarrow>
   rollup_loop True seen i t = (None, take i t @ collapse_rows seen (drop i t))"
proof (induction "True" seen i t rule: rollup_loop.induct)
  case (1 hashmap i table)
  show ?case
  proof (cases "i < length table")
    case False
    then show ?thesis by (simp add: rollup_loop.simps [of True hashmap i table])
  next
    case True
    let ?row = "table ! i"
    have dr: "drop i table = ?row # drop (Suc i) table"
      using True by (simp add: Cons_nth_drop_Suc)
    have wf_row: "\<not> length (cells ?row) < 3"
      using "1.prems" dr by (simp add: well_formed_def)
    have wf_rest: "well_formed (drop (Suc i) table)"
      using "1.prems" dr by (simp add: well_formed_def)
    have key: "cells ?row ! 1 @ ''~'' @ cells ?row ! 2 = rowKey ?row"
      by (simp add: rowKey_def)
    show ?thesis
    proof (cases "rowKey ?row \<in> hashmap")
      case seen: True
      have kin: "key_in (cells ?row ! 1 @ ''~'' @ cells ?row ! 2) hashmap"
        using seen key_in_own [of "cells ?row ! 1" "cells ?row ! 2" hashmap] key by simp
      have wf': "well_formed (drop (i + 1) (table[i := ?row\<lparr>display := ''none''\<rparr>]))"
        using wf_rest by simp
      have ih: "rollup_loop True hashmap (i + 1) (table[i := ?row\<lparr>display := ''none''\<rparr>]) =
          (None, take (i + 1) (table[i := ?row\<lparr>display := ''none''\<rparr>]) @
                 collapse_rows hashmap (drop (i + 1) (table[i := ?row\<lparr>display := ''none''\<rparr>])))"
        using "1.hyps"(1) [OF True refl wf_row refl refl refl _ kin wf'] by simp
      have tk: "take (i + 1) (table[i := ?row\<lparr>display := ''none''\<rparr>]) = take i table @ [hide ?row]"
        using True by (simp add: take_Suc_conv_app_nth hide_def)
      have "rollup_loop True hashmap i table =
              rollup_loop True hashmap (i + 1) (table[i := ?row\<lparr>display := ''none''\<rparr>])"
        using True wf_row kin by (simp add: rollup_loop.simps [of True hashmap i table] Let_def)
      also have "\<dots> = (None, take i table @ hide ?row # collapse_rows hashmap (drop (Suc i) table))"
        using ih tk by simp
      finally show ?thesis using dr seen by simp
    next
      case fresh: False
      have kin: "\<not> key_in (cells ?row ! 1 @ ''~'' @ cells ?row ! 2) hashmap"
        using fresh key_in_own [of "cells ?row ! 1" "cells ?row ! 2" hashmap] key by simp
      have ih: "rollup_loop True (insert (rowKey ?row) hashmap) (i + 1) table =
          (None, take (i + 1) table @
                 collapse_rows (insert (rowKey ?row) hashmap) (drop (i + 1) table))"
        using "1.hyps"(2) [OF True refl wf_row refl refl refl _ kin] wf_rest key by simp
      have tk: "take (i + 1) table = take i table @ [?row]"
        using True by (simp add: take_Suc_conv_app_nth)
      have "rollup_loop True hashmap i table =
              rollup_loop True (insert (rowKey ?row) hashmap) (i + 1) table"
        using True wf_row kin key
        by (simp add: rollup_loop.simps [of True hashmap i table] Let_def)
      also have "\<dots> = (None, take i table @ ?row #
                          collapse_rows (insert (rowKey ?row) hashmap) (drop (Suc i) table))"
        using ih tk by simp
      finally show ?thesis using dr fresh by simp
    qed
  qed
qed

lemma rollup_loop_uncollapse:
  "well_formed (drop i t) \<Longrightarrow>
   rollup_loop False seen i t = (None, take i t @ map unhide (drop i t))"
proof (induction "False" seen i t rule: rollup_loop.induct)
  case (1 hashmap i table)
  show ?case
  proof (cases "i < length table")
    case False
    then show ?thesis by (simp add: rollup_loop.simps [of False hashmap i table])
  next
    case True
    let ?row = "table ! i"
    let ?table' = "table[i := ?row\<lparr>display := ''''\<rparr>]"
    have dr: "drop i table = ?row # drop (Suc i) table"
      using True by (simp add: Cons_nth_drop_Suc)
    have wf_row: "\<not> length (cells ?row) < 3"
      using "1.prems" dr by (simp add: well_formed_def)
    have wf': "well_formed (drop (i + 1) ?table')"
      using "1.prems" dr by (simp add: well_formed_def)
    have ih: "rollup_loop False hashmap (i + 1) ?table' =
          (None, take (i + 1) ?table' @ map unhide (drop (i + 1) ?table'))"
      using "1.hyps"(3) [OF True refl wf_row refl refl refl _ wf'] by simp
    have tk: "take (i + 1) ?table' = take i table @ [unhide ?row]"
      using True by (simp add: take_Suc_conv_app_nth unhide_def)
    have "rollup_loop False hashmap i table = rollup_loop False hashmap (i + 1) ?table'"
      using True wf_row by (simp add: rollup_loop.simps [of False hashmap i table] Let_def)
    also have "\<dots> = (None, take i table @ unhide ?row # map unhide (drop (Suc i) table))"
      using ih tk by simp
    finally show ?thesis using dr by simp
  qed
qed

text \<open>Whatever the rows look like, the loop keeps the length of the table, the cells of
  every row and every row below its starting index.\<close>

lemma rollup_loop_frame:
  "length (snd (rollup_loop checked seen i t)) = length t \<and>
   map cells (snd (rollup_loop checked seen i t)) = map cells t \<and>
   take i (snd (rollup_loop checked seen i t)) = take i t"
proof (induction checked seen i t rule: rollup_loop.induct)
  case (1 checked hashmap i table)
  let ?row = "table ! i"
  let ?key = "cells ?row ! 1 @ ''~'' @ cells ?row ! 2"
  show ?case
  proof (cases "i < length table \<and> \<not> length (cells ?row) < 3")
    case False
    then show ?thesis
      by (auto simp: rollup_loop.simps [of checked hashmap i table] Let_def)
  next
    case True
    then have lt: "i < length table" and wf_row: "\<not> length (cells ?row) < 3" by simp_all
    have upd: "map cells (table[i := ?row\<lparr>display := d\<rparr>]) = map cells table" for d
      using lt by (simp add: map_update list_update_same_conv)
    have tk: "take i (take (i + 1) xs) = take i xs" for xs :: table
      by (simp add: min_def)
    consider (hid) "checked" "key_in ?key hashmap"
      | (kept) "checked" "\<not> key_in ?key hashmap"
      | (shown) "\<not> checked"
      by blast
    then show ?thesis
    proof cases
      case hid
      let ?t' = "table[i := ?row\<lparr>display := ''none''\<rparr>]"
      have eq: "rollup_loop checked hashmap i table = rollup_loop checked hashmap (i + 1) ?t'"
        using lt wf_row hid rollup_loop.simps [of checked hashmap i table] by (simp add: Let_def)
      have ih: "length (snd (rollup_loop checked hashmap (i + 1) ?t')) = length ?t' \<and>
                map cells (snd (rollup_loop checked hashmap (i + 1) ?t')) = map cells ?t' \<and>
                take (i + 1) (snd (rollup_loop checked hashmap (i + 1) ?t')) = take (i + 1) ?t'"
        using "1.IH"(1) [OF lt refl wf_row refl refl refl hid(1) hid(2)] .
      from ih have "take i (take (i + 1) (snd (rollup_loop checked hashmap (i + 1) ?t'))) =
                    take i (take (i + 1) ?t')" by simp
      then have "take i (snd (rollup_loop checked hashmap (i + 1) ?t')) = take i table"
        unfolding tk by simp
      with ih eq upd show ?thesis by simp
    next
      case kept
      let ?h' = "insert ?key hashmap"
      have eq: "rollup_loop checked hashmap i table = rollup_loop checked ?h' (i + 1) table"
        using lt wf_row kept rollup_loop.simps [of checked hashmap i table] by (simp add: Let_def)
      have ih: "length (snd (rollup_loop checked ?h' (i + 1) table)) = length table \<and>
                map cells (snd (rollup_loop checked ?h' (i + 1) table)) = map cells table \<and>
                take (i + 1) (snd (rollup_loop checked ?h' (i + 1) table)) = take (i + 1) table"
        using "1.IH"(2) [OF lt refl wf_row refl refl refl kept(1) kept(2)] .
      from ih have "take i (take (i + 1) (snd (rollup_loop checked ?h' (i + 1) table))) =
                    take i (take (i + 1) table)" by simp
      then have "take i (snd (rollup_loop checked ?h' (i + 1) table)) = take i table"
        unfolding tk by simp
      with ih eq show ?thesis by simp
    next
      case shown
      let ?t' = "table[i := ?row\<lparr>display := ''''\<rparr>]"
      have eq: "rollup_loop checked hashmap i table = rollup_loop checked hashmap (i + 1) ?t'"
        using lt wf_row shown rollup_loop.simps [of checked hashmap i table] by (simp add: Let_def)
      have ih: "length (snd (rollup_loop checked hashmap (i + 1) ?t')) = length ?t' \<and>
                map cells (snd (rollup_loop checked hashmap (i + 1) ?t')) = map cells ?t' \<and>
                take (i + 1) (snd (rollup_loop checked hashmap (i + 1) ?t')) = take (i + 1) ?t'"
        using "1.IH"(3) [OF lt refl wf_row refl refl refl shown] .
      from ih have "take i (take (i + 1) (snd (rollup_loop checked hashmap (i + 1) ?t'))) =
                    take i (take (i + 1) ?t')" by simp
      then have "take i (snd (rollup_loop checked hashmap (i + 1) ?t')) = take i table"
        unfolding tk by simp
      with ih eq upd show ?thesis by simp
    qed
  qed
qed

subsection \<open>Properties of the collapsed rows\<close>

lemma collapse_rows_length: "length (collapse_rows seen rs) = length rs"
  by (induction rs arbitrary: seen) auto

lemma collapse_rows_nth:
  "j < length rs \<Longrightarrow>
   collapse_rows seen rs ! j =
     (if rowKey (rs ! j) \<in> seen \<union> rowKey ` set (take j rs) then hide (rs ! j) else rs ! j)"
proof (induction rs arbitrary: seen j)
  case Nil
  then show ?case by simp
next
  case (Cons r rs)
  show ?case
  proof (cases j)
    case 0
    then show ?thesis by simp
  next
    case (Suc k)
    with Cons.prems have k: "k < length rs" by simp
    let ?x = "rs ! k"
    have nth: "(r # rs) ! j = ?x" and tk: "take j (r # rs) = r # take k rs"
      using Suc by simp_all
    show ?thesis
    proof (cases "rowKey r \<in> seen")
      case True
      have "collapse_rows seen (r # rs) ! j = collapse_rows seen rs ! k"
        using True Suc by simp
      also have "\<dots> = (if rowKey ?x \<in> seen \<union> rowKey ` set (take k rs) then hide ?x else ?x)"
        by (rule Cons.IH [OF k])
      also have "\<dots> = (if rowKey ?x \<in> seen \<union> rowKey ` set (r # take k rs) then hide ?x else ?x)"
        using True by auto
      finally show ?thesis unfolding nth tk .
    next
      case False
      have "collapse_rows seen (r # rs) ! j = collapse_rows (insert (rowKey r) seen) rs ! k"
        using False Suc by simp
      also have "\<dots> = (if rowKey ?x \<in> insert (rowKey r) seen \<union> rowKey ` set (take k rs)
                         then hide ?x else ?x)"
        by (rule Cons.IH [OF k])
      also have "\<dots> = (if rowKey ?x \<in> seen \<union> rowKey ` set (r # take k rs) then hide ?x else ?x)"
        by auto
      finally show ?thesis unfolding nth tk .
    qed
  qed
qed

lemma collapse_rows_count:
  "\<forall>r \<in> set rs. visible r \<Longrightarrow>
   length (filter visible (collapse_rows seen rs)) = card (rowKey ` set rs - seen)"
proof (induction rs arbitrary: seen)
  case Nil
  then show ?case by simp
next
  case (Cons r rs)
  then have vis: "visible r" and rest: "\<forall>r \<in> set rs. visible r" by simp_all
  show ?case
  proof (cases "rowKey r \<in> seen")
    case True
    then have "rowKey ` set (r # rs) - seen = rowKey ` set rs - seen" by auto
    moreover have "\<not> visible (hide r)" by (simp add: visible_def hide_def)
    ultimately show ?thesis using Cons.IH [OF rest, of seen] True by simp
  next
    case False
    have "rowKey ` set (r # rs) - seen =
          insert (rowKey r) (rowKey ` set rs - insert (rowKey r) seen)"
      using False by auto
    moreover have "card (insert (rowKey r) (rowKey ` set rs - insert (rowKey r) seen)) =
                   Suc (card (rowKey ` set rs - insert (rowKey r) seen))"
      by (rule card_insert_disjoint) auto
    ultimately show ?thesis
      using Cons.IH [OF rest, of "insert (rowKey r) seen"] False vis by simp
  qed
qed

lemma map_unhide_collapse_rows: "map unhide (collapse_rows seen rs) = map unhide rs"
  by (induction rs arbitrary: seen) (auto simp: unhide_def hide_def)

lemma collapse_rows_visible_only:
  "\<forall>r \<in> set rs. visible r \<Longrightarrow>
   map visible (collapse_rows seen (map unhide rs)) = map visible (collapse_rows seen rs)"
proof (induction rs arbitrary: seen)
  case Nil
  then show ?case by simp
next
  case (Cons r rs)
  have key: "rowKey (unhide r) = rowKey r" by (simp add: rowKey_def unhide_def)
  have "visible (unhide r)" "\<not> visible (hide (unhide r))" "\<not> visible (hide r)"
    by (simp_all add: visible_def unhide_def hide_def)
  with Cons key show ?case by simp
qed

subsection \<open>The handler as a whole\<close>

lemma well_formed_cells: "well_formed rs = (\<forall>c \<in> set (map cells rs). 3 \<le> length c)"
  by (simp add: well_formed_def)

lemma well_formed_same_cells:
  assumes "map cells a = map cells b"
  shows "well_formed (dataRows a) = well_formed (dataRows b)"
proof -
  have "map cells (drop 1 a) = map cells (drop 1 b)"
    by (metis assms drop_map)
  then show ?thesis unfolding well_formed_cells dataRows_def by simp
qed

lemma header_and_rows:
  "length xs = length t - 1 \<Longrightarrow> dataRows (take 1 t @ xs) = xs \<and> take 1 (take 1 t @ xs) = take 1 t"
  by (cases t) (auto simp: dataRows_def)

lemma rolled_collapse:
  "well_formed (dataRows t) \<Longrightarrow>
   rollupOlderVersions True t = (None, take 1 t @ collapse_rows {} (dataRows t))"
  using rollup_loop_collapse [of 1 t "{}"] by (simp add: rollupOlderVersions_def dataRows_def)

lemma rolled_uncollapse:
  "well_formed (dataRows t) \<Longrightarrow>
   rollupOlderVersions False t = (None, take 1 t @ map unhide (dataRows t))"
  using rollup_loop_uncollapse [of 1 t "{}"] by (simp add: rollupOlderVersions_def dataRows_def)

lemma rolled_frame:
  "length (rolled checked t) = length t \<and> map cells (rolled checked t) = map cells t
   \<and> take 1 (rolled checked t) = take 1 t"
  using rollup_loop_frame [of checked "{}" 1 t] by (simp add: rolled_def rollupOlderVersions_def)

lemma rolled_well_formed: "well_formed (dataRows (rolled checked t)) = well_formed (dataRows t)"
  using rolled_frame [of checked t] by (intro well_formed_same_cells) simp

lemma dataRows_rolled_True:
  "well_formed (dataRows t) \<Longrightarrow> dataRows (rolled True t) = collapse_rows {} (dataRows t)"
  using rolled_collapse [of t] header_and_rows [of "collapse_rows {} (dataRows t)" t]
  by (simp add: rolled_def collapse_rows_length dataRows_def)

lemma dataRows_rolled_False:
  "well_formed (dataRows t) \<Longrightarrow> dataRows (rolled False t) = map unhide (dataRows t)"
  using rolled_uncollapse [of t] header_and_rows [of "map unhide (dataRows t)" t]
  by (simp add: rolled_def dataRows_def)

lemma table_split: "t = take 1 t @ dataRows t"
  by (simp add: dataRows_def)

lemma rolled_split: "rolled checked t = take 1 t @ dataRows (rolled checked t)"
  using table_split [of "rolled checked t"] rolled_frame [of checked t] by simp

lemma visible_unhide: "visible (unhide r)"
  by (simp add: visible_def unhide_def)

text \<open>Two rows whose coupon cells are free of \<open>~\<close> have the same key exactly when they
  have the same coupon and the same type; with a \<open>~\<close> inside a coupon, two different
  pairs can give one key.\<close>

lemma rowKey_pairs:
  assumes "CHR ''~'' \<notin> set (cells r ! 1)" and "CHR ''~'' \<notin> set (cells r' ! 1)"
  shows "(rowKey r = rowKey r') = (cells r ! 1 = cells r' ! 1 \<and> cells r ! 2 = cells r' ! 2)"
proof
  assume eq: "rowKey r = rowKey r'"
  have tw: "takeWhile (\<lambda>c. c \<noteq> CHR ''~'') (a @ CHR ''~'' # b) = a"
    and dw: "dropWhile (\<lambda>c. c \<noteq> CHR ''~'') (a @ CHR ''~'' # b) = CHR ''~'' # b"
    if "CHR ''~'' \<notin> set a" for a b :: string
    using that by (induction a) auto
  from eq have "takeWhile (\<lambda>c. c \<noteq> CHR ''~'') (rowKey r) = takeWhile (\<lambda>c. c \<noteq> CHR ''~'') (rowKey r')"
    and "dropWhile (\<lambda>c. c \<noteq> CHR ''~'') (rowKey r) = dropWhile (\<lambda>c. c \<noteq> CHR ''~'') (rowKey r')"
    by simp_all
  then show "cells r ! 1 = cells r' ! 1 \<and> cells r ! 2 = cells r' ! 2"
    using tw [OF assms(1)] dw [OF assms(1)] tw [OF assms(2)] dw [OF assms(2)]
    by (simp add: rowKey_def)
next
  assume "cells r ! 1 = cells r' ! 1 \<and> cells r ! 2 = cells r' ! 2"
  then show "rowKey r = rowKey r'" by (simp add: rowKey_def)
qed

lemma rowKey_collision:
  "rowKey (mkrow ''2'' ''a~b'' ''c'' '''') = rowKey (mkrow ''1'' ''a'' ''b~c'' '''')"
  by (simp add: rowKey_def mkrow_def)

text \<open>
  Claim C10. For every table and both values of the flag the handler leaves the first
  row (index 0, the header) as it is, also when it stops with an error: the loop starts
  at index 1. The number of rows does not change either.
\<close>

theorem rollup_header_untouched:
  "take 1 (rolled checked t) = take 1 t
   \<and> length (rolled checked t) = length t
   \<and> (0 < length t \<longrightarrow> rolled checked t ! 0 = t ! 0)"
proof -
  have fr: "take 1 (rolled checked t) = take 1 t" "length (rolled checked t) = length t"
    using rolled_frame [of checked t] by simp_all
  have "rolled checked t ! 0 = t ! 0" if "0 < length t"
  proof -
    have "take 1 (rolled checked t) ! 0 = take 1 t ! 0" using fr by simp
    then show ?thesis by simp
  qed
  with fr show ?thesis by simp
qed

theorem rollup_header_untouched_witness:
  "0 < length sample_table
   \<and> rolled True (hide header_row # tl sample_table) ! 0 = hide header_row
   \<and> rolled False (hide header_row # tl sample_table) ! 0 = hide header_row"
  using rollup_header_untouched [of True "hide header_row # tl sample_table"]
    rollup_header_untouched [of False "hide header_row # tl sample_table"]
  by (simp add: sample_table_def)

text \<open>
  Claim C2. With the box checked the handler goes through the data rows in their order.
  A row whose key (coupon, \<open>~\<close>, type) was not met in an earlier data row is left as it
  is, and every later row with a key already met is hidden. So, on rows that are shown
  when the handler starts, the rows shown afterwards are exactly the first occurrences
  of the keys, and their number is the number of distinct keys.
\<close>

theorem rollup_collapse_keeps_first:
  assumes "well_formed (dataRows t)"
  shows "fst (rollupOlderVersions True t) = None
    \<and> length (rolled True t) = length t
    \<and> (\<forall>i. 1 \<le> i \<and> i < length t \<longrightarrow>
          rolled True t ! i = (if seen_before t i then hide (t ! i) else t ! i))
    \<and> ((\<forall>r \<in> set (dataRows t). visible r) \<longrightarrow>
          length (filter visible (dataRows (rolled True t))) = card (rowKey ` set (dataRows t))
          \<and> (\<forall>i. 1 \<le> i \<and> i < length t \<longrightarrow> visible (rolled True t ! i) = (\<not> seen_before t i)))"
proof -
  let ?rs = "dataRows t"
  have ok: "fst (rollupOlderVersions True t) = None"
    using rolled_collapse [OF assms] by simp
  have len: "length (rolled True t) = length t"
    using rolled_frame [of True t] by simp
  have dr: "dataRows (rolled True t) = collapse_rows {} ?rs"
    by (rule dataRows_rolled_True [OF assms])
  have nth: "rolled True t ! i = (if seen_before t i then hide (t ! i) else t ! i)"
    if i: "1 \<le> i \<and> i < length t" for i
  proof -
    from i obtain j where j: "i = Suc j" by (cases i) auto
    have jl: "j < length ?rs" using i j by (simp add: dataRows_def)
    have tj: "?rs ! j = t ! i" using i j by (simp add: dataRows_def)
    have "rolled True t ! i = dataRows (rolled True t) ! j"
      using i j len by (simp add: dataRows_def)
    also have "\<dots> = (if rowKey (?rs ! j) \<in> {} \<union> rowKey ` set (take j ?rs)
                       then hide (?rs ! j) else ?rs ! j)"
      unfolding dr by (rule collapse_rows_nth [OF jl])
    finally show ?thesis using tj j by (simp add: seen_before_def)
  qed
  have vis: "length (filter visible (dataRows (rolled True t))) = card (rowKey ` set ?rs)
          \<and> (\<forall>i. 1 \<le> i \<and> i < length t \<longrightarrow> visible (rolled True t ! i) = (\<not> seen_before t i))"
    if shown: "\<forall>r \<in> set ?rs. visible r"
  proof -
    have cnt: "length (filter visible (dataRows (rolled True t))) = card (rowKey ` set ?rs)"
      unfolding dr using collapse_rows_count [OF shown, of "{}"] by simp
    have "visible (rolled True t ! i) = (\<not> seen_before t i)" if i: "1 \<le> i \<and> i < length t" for i
    proof -
      have "t ! i \<in> set ?rs"
        using i by (auto simp: dataRows_def in_set_conv_nth intro!: exI [of _ "i - 1"])
      then have "visible (t ! i)" using shown by blast
      moreover have "\<not> visible (hide (t ! i))" by (simp add: visible_def hide_def)
      ultimately show ?thesis using nth [OF i] by simp
    qed
    with cnt show ?thesis by blast
  qed
  from ok len nth vis show ?thesis by blast
qed

theorem rollup_collapse_keeps_first_witness:
  "well_formed (dataRows sample_table)
   \<and> list_all visible (dataRows sample_table)
   \<and> fst (rollupOlderVersions True sample_table) = None
   \<and> rolled True sample_table ! 1 = sample_table ! 1
   \<and> rolled True sample_table ! 2 = hide (sample_table ! 2)
   \<and> rolled True sample_table ! 3 = sample_table ! 3
   \<and> length (filter visible (dataRows (rolled True sample_table))) = 2"
proof -
  have wf: "well_formed (dataRows sample_table)"
    by (simp add: well_formed_def dataRows_def sample_table_def mkrow_def)
  have shown: "\<forall>r \<in> set (dataRows sample_table). visible r"
    by (simp add: dataRows_def sample_table_def mkrow_def visible_def)
  have sb: "\<not> seen_before sample_table 1" "seen_before sample_table 2"
    "\<not> seen_before sample_table 3"
    by (simp_all add: seen_before_def dataRows_def sample_table_def mkrow_def rowKey_def)
  have card: "card (rowKey ` set (dataRows sample_table)) = 2"
    by (simp add: dataRows_def sample_table_def mkrow_def rowKey_def)
  have len: "length sample_table = 4" by (simp add: sample_table_def)
  show ?thesis
    using rollup_collapse_keeps_first [OF wf] wf shown sb card len
    by (simp add: list_all_iff)
qed

text \<open>
  Claim C6. With the box unchecked the handler shows every data row, whatever was
  hidden. So collapsing and then uncollapsing shows every row again, which for rows
  that were shown at the start is the visibility they had; collapsing once more gives
  the table of the previous collapse; and whatever the flag and the rows, the cells of
  every row stay as they are.
\<close>

theorem rollup_toggle_reversible:
  "(well_formed (dataRows t) \<longrightarrow>
      rollupOlderVersions False t = (None, take 1 t @ map unhide (dataRows t))
      \<and> (\<forall>r \<in> set (dataRows (rolled False t)). visible r)
      \<and> (\<forall>r \<in> set (dataRows (rolled False (rolled True t))). visible r)
      \<and> rolled True (rolled False (rolled True (rolled False t))) = rolled True (rolled False t)
      \<and> ((\<forall>r \<in> set (dataRows t). visible r) \<longrightarrow>
           map visible (rolled False (rolled True t)) = map visible t
           \<and> map visible (rolled True (rolled False (rolled True t))) = map visible (rolled True t)))
   \<and> map cells (rolled checked t) = map cells t"
proof -
  have cells: "map cells (rolled checked t) = map cells t"
    using rolled_frame [of checked t] by simp
  have main: "rollupOlderVersions False t = (None, take 1 t @ map unhide (dataRows t))
      \<and> (\<forall>r \<in> set (dataRows (rolled False t)). visible r)
      \<and> (\<forall>r \<in> set (dataRows (rolled False (rolled True t))). visible r)
      \<and> rolled True (rolled False (rolled True (rolled False t))) = rolled True (rolled False t)
      \<and> ((\<forall>r \<in> set (dataRows t). visible r) \<longrightarrow>
           map visible (rolled False (rolled True t)) = map visible t
           \<and> map visible (rolled True (rolled False (rolled True t))) = map visible (rolled True t))"
    if wf: "well_formed (dataRows t)"
  proof -
    let ?u = "rolled False t"
    let ?c = "rolled True t"
    have wfu: "well_formed (dataRows ?u)" and wfc: "well_formed (dataRows ?c)"
      using wf by (simp_all add: rolled_well_formed)
    have wfcu: "well_formed (dataRows (rolled True ?u))"
      using wfu by (simp add: rolled_well_formed)
    have wfuc: "well_formed (dataRows (rolled False ?c))"
      using wfc by (simp add: rolled_well_formed)
    have du: "dataRows ?u = map unhide (dataRows t)"
      by (rule dataRows_rolled_False [OF wf])
    have dc: "dataRows ?c = collapse_rows {} (dataRows t)"
      by (rule dataRows_rolled_True [OF wf])
    have duc: "dataRows (rolled False ?c) = map unhide (dataRows t)"
      using dataRows_rolled_False [OF wfc] dc by (simp add: map_unhide_collapse_rows)
    have dcu: "dataRows (rolled True ?u) = collapse_rows {} (map unhide (dataRows t))"
      using dataRows_rolled_True [OF wfu] du by simp
    have ducu: "dataRows (rolled False (rolled True ?u)) = map unhide (dataRows t)"
      using dataRows_rolled_False [OF wfcu] dcu
      by (simp add: map_unhide_collapse_rows unhide_def)
    have hd_eq: "take 1 (rolled a (rolled b x)) = take 1 x" for a b x
      using rolled_frame [of a "rolled b x"] rolled_frame [of b x] by simp
    have round: "rolled False (rolled True ?u) = ?u"
    proof -
      have "rolled False (rolled True ?u) =
              take 1 (rolled False (rolled True ?u)) @ dataRows (rolled False (rolled True ?u))"
        by (rule table_split)
      also have "\<dots> = take 1 ?u @ dataRows ?u"
        unfolding ducu du hd_eq ..
      also have "\<dots> = ?u"
        by (rule table_split [symmetric])
      finally show ?thesis .
    qed
    have p1: "rollupOlderVersions False t = (None, take 1 t @ map unhide (dataRows t))"
      by (rule rolled_uncollapse [OF wf])
    have p2: "\<forall>r \<in> set (dataRows ?u). visible r"
      unfolding du by (simp add: visible_unhide)
    have p3: "\<forall>r \<in> set (dataRows (rolled False ?c)). visible r"
      unfolding duc by (simp add: visible_unhide)
    have p4: "rolled True (rolled False (rolled True ?u)) = rolled True ?u"
      unfolding round ..
    have p5: "map visible (rolled False ?c) = map visible t
           \<and> map visible (rolled True (rolled False ?c)) = map visible ?c"
      if shown: "\<forall>r \<in> set (dataRows t). visible r"
    proof -
      have same: "map visible (map unhide (dataRows t)) = map visible (dataRows t)"
        using shown by (simp add: visible_unhide)
      have hc: "take 1 ?c = take 1 t"
        using rolled_frame [of True t] by simp
      have "rolled False ?c = take 1 (rolled False ?c) @ dataRows (rolled False ?c)"
        by (rule table_split)
      also have "\<dots> = take 1 t @ map unhide (dataRows t)"
        unfolding duc hd_eq ..
      finally have "map visible (rolled False ?c) =
              map visible (take 1 t) @ map visible (map unhide (dataRows t))"
        by simp
      also have "\<dots> = map visible (take 1 t) @ map visible (dataRows t)"
        unfolding same ..
      also have "\<dots> = map visible (take 1 t @ dataRows t)"
        by simp
      also have "\<dots> = map visible t"
        using table_split [of t] by simp
      finally have a: "map visible (rolled False ?c) = map visible t" .
      have dcuc: "dataRows (rolled True (rolled False ?c)) =
                    collapse_rows {} (map unhide (dataRows t))"
        using dataRows_rolled_True [OF wfuc] duc by simp
      have h3: "take 1 (rolled True (rolled False ?c)) = take 1 t"
        using rolled_frame [of True "rolled False ?c"] hd_eq [of False True t] by simp
      have "rolled True (rolled False ?c) =
              take 1 (rolled True (rolled False ?c)) @ dataRows (rolled True (rolled False ?c))"
        by (rule table_split)
      also have "\<dots> = take 1 t @ collapse_rows {} (map unhide (dataRows t))"
        unfolding dcuc h3 ..
      finally have "map visible (rolled True (rolled False ?c)) =
              map visible (take 1 t) @ map visible (collapse_rows {} (map unhide (dataRows t)))"
        by simp
      also have "\<dots> = map visible (take 1 t) @ map visible (collapse_rows {} (dataRows t))"
        using collapse_rows_visible_only [OF shown, of "{}"] by simp
      also have "\<dots> = map visible (take 1 ?c @ dataRows ?c)"
        unfolding dc hc by simp
      also have "\<dots> = map visible ?c"
        using table_split [of ?c] by simp
      finally show ?thesis using a by simp
    qed
    from p1 p2 p3 p4 p5 show ?thesis by blast
  qed
  from main cells show ?thesis by blast
qed

theorem rollup_toggle_reversible_witness:
  "well_formed (dataRows sample_table)
   \<and> list_all visible (dataRows sample_table)
   \<and> rollupOlderVersions False (rolled True sample_table) = (None, sample_table)
   \<and> map visible (rolled True (rolled False (rolled True sample_table))) =
       [True, True, False, True]"
proof -
  have wf: "well_formed (dataRows sample_table)"
    by (simp add: well_formed_def dataRows_def sample_table_def mkrow_def)
  have shown: "\<forall>r \<in> set (dataRows sample_table). visible r"
    by (simp add: dataRows_def sample_table_def mkrow_def visible_def)
  have c: "rolled True sample_table =
      [header_row, mkrow ''3'' ''A'' ''1'' '''', mkrow ''2'' ''A'' ''1'' ''none'',
       mkrow ''1'' ''B'' ''1'' '''']"
    using rolled_collapse [OF wf]
    by (simp add: rolled_def dataRows_def sample_table_def mkrow_def rowKey_def hide_def)
  have wfc: "well_formed (dataRows (rolled True sample_table))"
    using wf by (simp add: rolled_well_formed)
  have u: "rollupOlderVersions False (rolled True sample_table) = (None, sample_table)"
    using rollup_toggle_reversible [of "rolled True sample_table" True] wfc
    unfolding c by (simp add: dataRows_def sample_table_def mkrow_def unhide_def)
  have v: "map visible (rolled True (rolled False (rolled True sample_table))) =
       map visible (rolled True sample_table)"
    using rollup_toggle_reversible [of sample_table True] wf shown by blast
  show ?thesis
    using wf shown u v unfolding c
    by (simp add: visible_def mkrow_def header_row_def list_all_iff)
qed

section \<open>What the derivative test decides\<close>

lemma nil_conc: "([] \<in> conc A B) = ([] \<in> A \<and> [] \<in> B)"
  by (auto simp: conc_def)

lemma nil_lpow: "([] \<in> lpow n A) = (n = 0 \<or> [] \<in> A)"
  by (induction n) (auto simp: nil_conc)

lemma nullable_lang: "nullable r = ([] \<in> lang r)"
  by (induction r) (auto simp: nil_conc nil_lpow)

lemma cons_conc:
  "(c # w \<in> conc A B) = (w \<in> conc {u. c # u \<in> A} B \<or> ([] \<in> A \<and> c # w \<in> B))"
proof
  assume "c # w \<in> conc A B"
  then obtain u v where uv: "c # w = u @ v" "u \<in> A" "v \<in> B"
    by (auto simp: conc_def)
  show "w \<in> conc {u. c # u \<in> A} B \<or> ([] \<in> A \<and> c # w \<in> B)"
  proof (cases u)
    case Nil
    with uv show ?thesis by simp
  next
    case (Cons x xs)
    with uv have "w = xs @ v" "c # xs \<in> A" by simp_all
    with uv(3) have "w \<in> conc {u. c # u \<in> A} B" by (auto simp: conc_def)
    then show ?thesis ..
  qed
next
  assume "w \<in> conc {u. c # u \<in> A} B \<or> ([] \<in> A \<and> c # w \<in> B)"
  then show "c # w \<in> conc A B"
  proof
    assume "w \<in> conc {u. c # u \<in> A} B"
    then obtain u v where "w = u @ v" "c # u \<in> A" "v \<in> B" by (auto simp: conc_def)
    then have "c # w = (c # u) @ v \<and> c # u \<in> A \<and> v \<in> B" by simp
    then show ?thesis unfolding conc_def by blast
  next
    assume "[] \<in> A \<and> c # w \<in> B"
    then have "c # w = [] @ (c # w) \<and> [] \<in> A \<and> c # w \<in> B" by simp
    then show ?thesis unfolding conc_def by blast
  qed
qed

lemma conc_nil_left: "[] \<in> A \<Longrightarrow> v \<in> B \<Longrightarrow> v \<in> conc A B"
proof -
  assume "[] \<in> A" "v \<in> B"
  then have "v = [] @ v \<and> [] \<in> A \<and> v \<in> B" by simp
  then show ?thesis unfolding conc_def by blast
qed

lemma conc_mono_right: "w \<in> conc A B \<Longrightarrow> B \<subseteq> C \<Longrightarrow> w \<in> conc A C"
  by (auto simp: conc_def)

lemma cons_lpow: "(c # w \<in> lpow (Suc n) A) = (w \<in> conc {u. c # u \<in> A} (lpow n A))"
proof (induction n)
  case 0
  show ?case by (simp add: cons_conc)
next
  case (Suc n)
  have "(c # w \<in> lpow (Suc (Suc n)) A) =
          (w \<in> conc {u. c # u \<in> A} (lpow (Suc n) A) \<or> ([] \<in> A \<and> c # w \<in> lpow (Suc n) A))"
    by (simp add: cons_conc)
  moreover have "w \<in> conc {u. c # u \<in> A} (lpow (Suc n) A)"
    if "[] \<in> A" "c # w \<in> lpow (Suc n) A"
  proof -
    from that(2) have "w \<in> conc {u. c # u \<in> A} (lpow n A)" by (simp only: Suc.IH)
    moreover have "lpow n A \<subseteq> lpow (Suc n) A"
      using that(1) by (auto intro: conc_nil_left)
    ultimately show ?thesis by (rule conc_mono_right)
  qed
  ultimately show ?case by blast
qed

lemma cons_plus:
  "(c # w \<in> (\<Union>n. lpow (Suc n) A)) = (w \<in> conc {u. c # u \<in> A} ({[]} \<union> (\<Union>n. lpow (Suc n) A)))"
proof
  assume "c # w \<in> (\<Union>n. lpow (Suc n) A)"
  then obtain n where "c # w \<in> lpow (Suc n) A" by blast
  then have "w \<in> conc {u. c # u \<in> A} (lpow n A)" by (simp only: cons_lpow)
  moreover have "lpow n A \<subseteq> {[]} \<union> (\<Union>n. lpow (Suc n) A)"
    by (cases n) auto
  ultimately show "w \<in> conc {u. c # u \<in> A} ({[]} \<union> (\<Union>n. lpow (Suc n) A))"
    by (rule conc_mono_right)
next
  assume "w \<in> conc {u. c # u \<in> A} ({[]} \<union> (\<Union>n. lpow (Suc n) A))"
  then obtain u v where uv': "w = u @ v" "c # u \<in> A" "v \<in> {[]} \<union> (\<Union>n. lpow (Suc n) A)"
    unfolding conc_def by blast
  then have uv: "w = u @ v" "c # u \<in> A" "v = [] \<or> (\<exists>n. v \<in> lpow (Suc n) A)"
    by blast+
  have "\<exists>n. v \<in> lpow n A"
  proof (cases "v = []")
    case True
    then have "v \<in> lpow 0 A" by simp
    then show ?thesis ..
  next
    case False
    with uv(3) obtain n where "v \<in> lpow (Suc n) A" by blast
    then show ?thesis ..
  qed
  then obtain n where "v \<in> lpow n A" ..
  with uv have "w \<in> conc {u. c # u \<in> A} (lpow n A)" unfolding conc_def by blast
  then have "c # w \<in> lpow (Suc n) A" by (simp only: cons_lpow)
  then show "c # w \<in> (\<Union>n. lpow (Suc n) A)" by blast
qed

lemma lang_deriv: "(w \<in> lang (deriv c r)) = (c # w \<in> lang r)"
proof (induction c r arbitrary: w rule: deriv.induct)
  case (5 c r s)
  have lr: "lang (deriv c r) = {u. c # u \<in> lang r}"
    using "5.IH"(1) "5.IH"(3) by (cases "nullable r") auto
  show ?case
  proof (cases "nullable r")
    case True
    then have ls: "lang (deriv c s) = {u. c # u \<in> lang s}"
      using "5.IH"(2) by auto
    from True show ?thesis by (simp add: cons_conc lr ls nullable_lang)
  next
    case False
    then show ?thesis by (simp add: cons_conc lr nullable_lang)
  qed
next
  case (8 c n r)
  then have l: "lang (deriv c r) = {u. c # u \<in> lang r}" by auto
  have "(c # w \<in> lang (Rep (Suc n) r)) = (w \<in> conc {u. c # u \<in> lang r} (lpow n (lang r)))"
    using cons_lpow [of c w n "lang r"] by simp
  then show ?case by (simp add: l)
next
  case (9 c r)
  then have l: "lang (deriv c r) = {u. c # u \<in> lang r}" by auto
  have "(c # w \<in> lang (Plus r)) =
          (w \<in> conc {u. c # u \<in> lang r} ({[]} \<union> (\<Union>n. lpow (Suc n) (lang r))))"
    using cons_plus [of c w "lang r"] by simp
  then show ?case by (simp add: l)
qed auto

lemma regexp_test_lang: "regexp_test r s = (s \<in> lang r)"
proof (induction s arbitrary: r)
  case Nil
  show ?case by (simp add: regexp_test_def nullable_lang)
next
  case (Cons c s)
  have "regexp_test r (c # s) = regexp_test (deriv c r) s"
    by (simp add: regexp_test_def)
  then show ?case by (simp add: Cons.IH lang_deriv)
qed

lemma lpow_concat: "(s \<in> lpow n A) = (\<exists>ws. length ws = n \<and> set ws \<subseteq> A \<and> s = concat ws)"
proof (induction n arbitrary: s)
  case 0
  show ?case by auto
next
  case (Suc n)
  show ?case
  proof
    assume "s \<in> lpow (Suc n) A"
    then obtain u v where uv: "s = u @ v" "u \<in> A" "v \<in> lpow n A" by (auto simp: conc_def)
    then obtain ws where ws: "length ws = n" "set ws \<subseteq> A" "v = concat ws"
      using Suc.IH [of v] by blast
    then have "length (u # ws) = Suc n \<and> set (u # ws) \<subseteq> A \<and> s = concat (u # ws)"
      using uv by simp
    then show "\<exists>ws. length ws = Suc n \<and> set ws \<subseteq> A \<and> s = concat ws" by blast
  next
    assume "\<exists>ws. length ws = Suc n \<and> set ws \<subseteq> A \<and> s = concat ws"
    then obtain ws where ws: "length ws = Suc n" "set ws \<subseteq> A" "s = concat ws" by blast
    then obtain u vs where c: "ws = u # vs" by (cases ws) auto
    with ws have "concat vs \<in> lpow n A" using Suc.IH [of "concat vs"] by auto
    with ws c have "s = u @ concat vs \<and> u \<in> A \<and> concat vs \<in> lpow n A" by simp
    then show "s \<in> lpow (Suc n) A" unfolding lpow.simps conc_def by blast
  qed
qed

lemma shape_in_group: "date_shape w \<Longrightarrow> regexp_test date_group w"
  by (erule date_shape.elims)
    (simp_all add: regexp_test_def date_group_def digit_def is_digit_def eval_nat_numeral)

lemma group_has_shape: "w \<in> lang date_group \<Longrightarrow> date_shape w"
  by (auto simp: date_group_def digit_def is_digit_def conc_def eval_nat_numeral)

lemma date_group_shape: "regexp_test date_group w = date_shape w"
  using shape_in_group [of w] group_has_shape [of w] regexp_test_lang [of date_group w]
  by blast

text \<open>The pattern of the date check accepts the strings made of one or more dates, one
  after the other, and nothing else.\<close>

lemma date_regexp_accepts:
  "regexp_test date_regexp s =
     (\<exists>ws. ws \<noteq> [] \<and> (\<forall>w \<in> set ws. date_shape w) \<and> s = concat ws)"
proof -
  have g: "(w \<in> lang date_group) = date_shape w" for w
    using regexp_test_lang [of date_group w] date_group_shape [of w] by simp
  have "regexp_test date_regexp s = (\<exists>n. s \<in> lpow (Suc n) (lang date_group))"
    by (simp add: regexp_test_lang date_regexp_def)
  also have "\<dots> = (\<exists>n ws. length ws = Suc n \<and> set ws \<subseteq> lang date_group \<and> s = concat ws)"
    by (simp only: lpow_concat)
  also have "\<dots> = (\<exists>ws. ws \<noteq> [] \<and> (\<forall>w \<in> set ws. date_shape w) \<and> s = concat ws)"
  proof
    assume "\<exists>n ws. length ws = Suc n \<and> set ws \<subseteq> lang date_group \<and> s = concat ws"
    then obtain n ws where "length ws = Suc n" "set ws \<subseteq> lang date_group" "s = concat ws"
      by blast
    then have "ws \<noteq> [] \<and> (\<forall>w \<in> set ws. date_shape w) \<and> s = concat ws"
      using g by auto
    then show "\<exists>ws. ws \<noteq> [] \<and> (\<forall>w \<in> set ws. date_shape w) \<and> s = concat ws" ..
  next
    assume "\<exists>ws. ws \<noteq> [] \<and> (\<forall>w \<in> set ws. date_shape w) \<and> s = concat ws"
    then obtain ws where ws: "ws \<noteq> []" "\<forall>w \<in> set ws. date_shape w" "s = concat ws" by blast
    then obtain n where "length ws = Suc n" by (cases ws) auto
    moreover have "set ws \<subseteq> lang date_group" using ws(2) g by auto
    ultimately show "\<exists>n ws. length ws = Suc n \<and> set ws \<subseteq> lang date_group \<and> s = concat ws"
      using ws(3) by blast
  qed
  finally show ?thesis .
qed

lemma single_date_accepted: "date_shape s \<Longrightarrow> regexp_test date_regexp s"
proof -
  assume "date_shape s"
  then have "[s] \<noteq> [] \<and> (\<forall>w \<in> set [s]. date_shape w) \<and> s = concat [s]" by simp
  then show ?thesis unfolding date_regexp_accepts by blast
qed

section \<open>Submitting the form: proofs\<close>

lemma allFields_all: "allFields = UNIV"
proof -
  have "f \<in> allFields" for f by (cases f) (simp_all add: allFields_def)
  then show ?thesis by blast
qed

lemma show_nat_3: "show_nat 3 = ''3''"
  by (simp add: show_nat.simps [of 3])

lemma show_nat_128: "show_nat 128 = ''128''"
  by (simp add: show_nat.simps [of 128] show_nat.simps [of 12] show_nat.simps [of "Suc 0"])

lemma checkNumber_passes: "checkNumber f n p = (True, p)"
  by (simp add: checkNumber_def)

lemma checkLength_coupon:
  "checkLength CouponCode ''Coupon Code'' 3 128 p =
     (if 128 < length (fieldVal p CouponCode) \<or> length (fieldVal p CouponCode) < 3
      then (False, updateTips length_tip (p\<lparr>errorClass := insert CouponCode (errorClass p)\<rparr>))
      else (True, p))"
  by (simp add: checkLength_def show_nat_3 show_nat_128 length_tip_def)

lemma save_length_fails:
  assumes "length (fieldVal p CouponCode) < 3 \<or> 128 < length (fieldVal p CouponCode)"
  shows "saveNewPlan fmt p =
           Inr (False, updateTips length_tip (p\<lparr>errorClass := {CouponCode}, expires := ''''\<rparr>))"
  using assms
  unfolding saveNewPlan_def Let_def checkLength_coupon checkNumber_passes andAlso_def
    allFields_all checkRegexp_def
  by (auto simp: updateTips_def)

lemma save_date_fails:
  assumes "3 \<le> length (fieldVal p CouponCode)" "length (fieldVal p CouponCode) \<le> 128"
    and "fieldVal p CouponExpiresDate \<noteq> []"
    and "\<not> regexp_test date_regexp (fieldVal p CouponExpiresDate)"
  shows "saveNewPlan fmt p =
           Inr (False, updateTips date_tip (p\<lparr>errorClass := {CouponExpiresDate}, expires := ''''\<rparr>))"
  using assms
  unfolding saveNewPlan_def Let_def checkLength_coupon checkNumber_passes andAlso_def
    allFields_all checkRegexp_def
  by (auto simp: updateTips_def date_tip_def)

lemma save_passes:
  assumes "3 \<le> length (fieldVal p CouponCode)" "length (fieldVal p CouponCode) \<le> 128"
    and "fieldVal p CouponExpiresDate = [] \<or> regexp_test date_regexp (fieldVal p CouponExpiresDate)"
    and "dollarsToCents (fieldVal p ListPriceMonthlyCredit) = Inr listPrice"
    and "dollarsToCents (fieldVal p DiscountedPriceMonthlyCredit) = Inr discountedPrice"
  shows "saveNewPlan fmt p =
           Inr (True, p\<lparr>errorClass := {},
                  expires := (if fieldVal p CouponExpiresDate = [] then ''''
                              else fmt (fieldVal p CouponExpiresDate)),
                  requests := requests p @
                    [GetJSON (origin p @ ''/apis/v1/createNewPlan'')
                       \<lparr>couponCode = fieldVal p CouponCode,
                        planTypeEnum = fieldVal p PlanTypeEnum,
                        couponAppliedMessage = fieldVal p CouponAppliedMessage,
                        hiddenPlanComment = fieldVal p HiddenPlanComment,
                        listPriceMonthlyCredit = listPrice,
                        discountedPriceMonthlyCredit = discountedPrice,
                        featuresProvidedBitmap = fieldVal p FeaturesProvidedBitmap,
                        couponExpiresDate = (if fieldVal p CouponExpiresDate = [] then ''''
                              else fmt (fieldVal p CouponExpiresDate))\<rparr>]\<rparr>)"
  using assms
  unfolding saveNewPlan_def Let_def checkLength_coupon checkNumber_passes andAlso_def
    allFields_all checkRegexp_def
  by (auto simp: updateTips_def)

lemma fill_val: "fieldVal (fill kvs p) f = (case map_of kvs f of Some v \<Rightarrow> v | None \<Rightarrow> fieldVal p f)"
  by (simp add: fill_def)

lemma fill_rest:
  "errorClass (fill kvs p) = errorClass p" "tipsText (fill kvs p) = tipsText p"
  "tipsHighlight (fill kvs p) = tipsHighlight p" "timeouts (fill kvs p) = timeouts p"
  "origin (fill kvs p) = origin p" "requests (fill kvs p) = requests p"
  "expires (fill kvs p) = expires p"
  by (simp_all add: fill_def)

lemma not_a_date: "\<not> regexp_test date_regexp ''xyz''" "\<not> regexp_test date_regexp ''tomorrow''"
  by (simp_all add: regexp_test_def date_regexp_def date_group_def digit_def in_range_def
      eval_nat_numeral)

lemma doubled_date: "regexp_test date_regexp ''12/25/202212/25/2022''"
  by (simp add: regexp_test_def date_regexp_def date_group_def digit_def in_range_def
      eval_nat_numeral)

text \<open>
  Claim C7. A form with coupon code \<open>SAVE10\<close>, list price \<open>19.99\<close>, discounted price
  \<open>9.5\<close> and an empty expiration date passes validation, and the pass adds exactly one
  request, to \<open>createNewPlan\<close>, whose data carry the prices \<open>1999\<close> and \<open>950\<close> and the
  empty string as expiration date.
\<close>

theorem save_plan_scenario:
  assumes "fieldVal p CouponCode = ''SAVE10''"
    and "fieldVal p ListPriceMonthlyCredit = ''19.99''"
    and "fieldVal p DiscountedPriceMonthlyCredit = ''9.5''"
    and "fieldVal p CouponExpiresDate = ''''"
  shows "saveNewPlan fmt p =
     Inr (True, p\<lparr>errorClass := {}, expires := '''',
            requests := requests p @
              [GetJSON (origin p @ ''/apis/v1/createNewPlan'')
                 \<lparr>couponCode = ''SAVE10'',
                  planTypeEnum = fieldVal p PlanTypeEnum,
                  couponAppliedMessage = fieldVal p CouponAppliedMessage,
                  hiddenPlanComment = fieldVal p HiddenPlanComment,
                  listPriceMonthlyCredit = ''1999'',
                  discountedPriceMonthlyCredit = ''950'',
                  featuresProvidedBitmap = fieldVal p FeaturesProvidedBitmap,
                  couponExpiresDate = ''''\<rparr>]\<rparr>)"
proof -
  have lp: "dollarsToCents (fieldVal p ListPriceMonthlyCredit) = Inr ''1999''"
    using dollarsToCents_dot [of "''19''" "''99''"] assms(2) by simp
  have dp: "dollarsToCents (fieldVal p DiscountedPriceMonthlyCredit) = Inr ''950''"
    using dollarsToCents_dot [of "''9''" "''5''"] assms(3) by simp
  show ?thesis
    using save_passes [of p "''1999''" "''950''" fmt] lp dp assms(1) assms(4) by simp
qed

theorem save_plan_scenario_witness:
  "fieldVal save10_page CouponCode = ''SAVE10''
   \<and> fieldVal save10_page ListPriceMonthlyCredit = ''19.99''
   \<and> fieldVal save10_page DiscountedPriceMonthlyCredit = ''9.5''
   \<and> fieldVal save10_page CouponExpiresDate = ''''
   \<and> saveNewPlan id save10_page =
     Inr (True, save10_page\<lparr>requests :=
              [GetJSON ''https://example.org/apis/v1/createNewPlan''
                 \<lparr>couponCode = ''SAVE10'', planTypeEnum = '''', couponAppliedMessage = '''',
                  hiddenPlanComment = '''', listPriceMonthlyCredit = ''1999'',
                  discountedPriceMonthlyCredit = ''950'', featuresProvidedBitmap = '''',
                  couponExpiresDate = ''''\<rparr>]\<rparr>)"
proof -
  have v: "fieldVal save10_page CouponCode = ''SAVE10''"
    "fieldVal save10_page ListPriceMonthlyCredit = ''19.99''"
    "fieldVal save10_page DiscountedPriceMonthlyCredit = ''9.5''"
    "fieldVal save10_page CouponExpiresDate = ''''"
    by (simp_all add: save10_page_def fill_val blank_page_def)
  have r: "fieldVal save10_page PlanTypeEnum = ''''"
    "fieldVal save10_page CouponAppliedMessage = ''''"
    "fieldVal save10_page HiddenPlanComment = ''''"
    "fieldVal save10_page FeaturesProvidedBitmap = ''''"
    "errorClass save10_page = {}" "expires save10_page = ''''" "requests save10_page = []"
    "origin save10_page = ''https://example.org''"
    by (simp_all add: save10_page_def fill_val fill_rest blank_page_def)
  have "save10_page\<lparr>errorClass := {}, expires := '''', requests := rs\<rparr> =
          save10_page\<lparr>requests := rs\<rparr>" for rs
    using r(5,6) by (cases save10_page) simp
  then show ?thesis
    using save_plan_scenario [OF v, of id] v r by simp
qed

text \<open>
  Claim C8. When a check of the pass fails, that is when the coupon code is shorter than
  3 or longer than 128 characters, or the expiration date is not empty and does not match
  the pattern, \<open>saveNewPlan\<close> returns \<open>false\<close> and issues no request; the field of the
  failing check carries the error class, and the tips paragraph shows that check's
  message, highlighted.
\<close>

theorem save_invalid_aborts:
  assumes "length (fieldVal p CouponCode) < 3 \<or> 128 < length (fieldVal p CouponCode)
           \<or> (fieldVal p CouponExpiresDate \<noteq> []
               \<and> \<not> regexp_test date_regexp (fieldVal p CouponExpiresDate))"
  shows "\<exists>p'. saveNewPlan fmt p = Inr (False, p')
           \<and> requests p' = requests p
           \<and> tipsHighlight p'
           \<and> (if length (fieldVal p CouponCode) < 3 \<or> 128 < length (fieldVal p CouponCode)
               then errorClass p' = {CouponCode} \<and> tipsText p' = length_tip
               else errorClass p' = {CouponExpiresDate} \<and> tipsText p' = date_tip)"
proof (cases "length (fieldVal p CouponCode) < 3 \<or> 128 < length (fieldVal p CouponCode)")
  case True
  show ?thesis
    using save_length_fails [OF True, of fmt] True by (simp add: updateTips_def)
next
  case False
  then have len: "3 \<le> length (fieldVal p CouponCode)" "length (fieldVal p CouponCode) \<le> 128"
    by simp_all
  from False assms have date: "fieldVal p CouponExpiresDate \<noteq> []"
    "\<not> regexp_test date_regexp (fieldVal p CouponExpiresDate)" by blast+
  show ?thesis
    using save_date_fails [OF len date, of fmt] False by (simp add: updateTips_def)
qed

theorem save_invalid_aborts_witness:
  "length (fieldVal two_char_page CouponCode) = 2
   \<and> (\<exists>p'. saveNewPlan id two_char_page = Inr (False, p')
           \<and> requests p' = requests two_char_page
           \<and> tipsHighlight p'
           \<and> errorClass p' = {CouponCode}
           \<and> tipsText p' = ''Length of Coupon Code must be between 3 and 128.'')"
proof -
  have l: "length (fieldVal two_char_page CouponCode) = 2"
    by (simp add: two_char_page_def fill_val)
  then have "length (fieldVal two_char_page CouponCode) < 3 \<or> 128 < length (fieldVal two_char_page CouponCode)
           \<or> (fieldVal two_char_page CouponExpiresDate \<noteq> []
               \<and> \<not> regexp_test date_regexp (fieldVal two_char_page CouponExpiresDate))"
    by simp
  from save_invalid_aborts [OF this, of id] l show ?thesis
    by (simp add: length_tip_def)
qed

text \<open>
  Claim C4, as the code has it. The checks are joined by \<open>valid && ...\<close>, so a check
  runs only while every check before it has passed: the pass stops checking at the first
  failure and the tips paragraph shows the message of that first failing check, whatever
  the later fields hold. A bad coupon code leaves the length message as the text of the
  tips paragraph, highlighted, with one timer started and only the coupon field flagged,
  even when the date is bad too; the date message is the text only when the coupon code
  is fine; and a pass without a failure leaves text, highlight and timers as they were.
\<close>

theorem save_reports_first_failure:
  "(length (fieldVal p CouponCode) < 3 \<or> 128 < length (fieldVal p CouponCode) \<longrightarrow>
      saveNewPlan fmt p =
        Inr (False, p\<lparr>errorClass := {CouponCode}, expires := '''',
               tipsText := length_tip, tipsHighlight := True,
               timeouts := timeouts p @ [500]\<rparr>))
   \<and> (3 \<le> length (fieldVal p CouponCode) \<and> length (fieldVal p CouponCode) \<le> 128
      \<and> fieldVal p CouponExpiresDate \<noteq> []
      \<and> \<not> regexp_test date_regexp (fieldVal p CouponExpiresDate) \<longrightarrow>
      saveNewPlan fmt p =
        Inr (False, p\<lparr>errorClass := {CouponExpiresDate}, expires := '''',
               tipsText := date_tip, tipsHighlight := True,
               timeouts := timeouts p @ [500]\<rparr>))
   \<and> (3 \<le> length (fieldVal p CouponCode) \<and> length (fieldVal p CouponCode) \<le> 128
      \<and> (fieldVal p CouponExpiresDate = []
          \<or> regexp_test date_regexp (fieldVal p CouponExpiresDate)) \<longrightarrow>
      (\<exists>p'. saveNewPlan fmt p = Inr (True, p') \<and> tipsText p' = tipsText p
            \<and> tipsHighlight p' = tipsHighlight p
            \<and> timeouts p' = timeouts p \<and> errorClass p' = {}))
   \<and> length_tip = ''Length of Coupon Code must be between 3 and 128.''
   \<and> date_tip = ''Expiration date must use this format: 12/25/2022''"
proof -
  obtain lp where lp: "dollarsToCents (fieldVal p ListPriceMonthlyCredit) = Inr lp"
    using dollarsToCents_total [of "fieldVal p ListPriceMonthlyCredit"] by blast
  obtain dp where dp: "dollarsToCents (fieldVal p DiscountedPriceMonthlyCredit) = Inr dp"
    using dollarsToCents_total [of "fieldVal p DiscountedPriceMonthlyCredit"] by blast
  have ok: "\<exists>p'. saveNewPlan fmt p = Inr (True, p') \<and> tipsText p' = tipsText p
            \<and> tipsHighlight p' = tipsHighlight p
            \<and> timeouts p' = timeouts p \<and> errorClass p' = {}"
    if "3 \<le> length (fieldVal p CouponCode)" "length (fieldVal p CouponCode) \<le> 128"
      "fieldVal p CouponExpiresDate = [] \<or> regexp_test date_regexp (fieldVal p CouponExpiresDate)"
    using save_passes [OF that lp dp, of fmt] by simp
  have tip: "updateTips t (p\<lparr>errorClass := e, expires := ''''\<rparr>) =
        p\<lparr>errorClass := e, expires := '''', tipsText := t, tipsHighlight := True,
           timeouts := timeouts p @ [500]\<rparr>" for t e
    by (simp add: updateTips_def)
  have short: "saveNewPlan fmt p =
        Inr (False, p\<lparr>errorClass := {CouponCode}, expires := '''',
               tipsText := length_tip, tipsHighlight := True,
               timeouts := timeouts p @ [500]\<rparr>)"
    if "length (fieldVal p CouponCode) < 3 \<or> 128 < length (fieldVal p CouponCode)"
    using save_length_fails [OF that, of fmt] unfolding tip .
  have date: "saveNewPlan fmt p =
        Inr (False, p\<lparr>errorClass := {CouponExpiresDate}, expires := '''',
               tipsText := date_tip, tipsHighlight := True,
               timeouts := timeouts p @ [500]\<rparr>)"
    if "3 \<le> length (fieldVal p CouponCode)" "length (fieldVal p CouponCode) \<le> 128"
      "fieldVal p CouponExpiresDate \<noteq> []"
      "\<not> regexp_test date_regexp (fieldVal p CouponExpiresDate)"
    using save_date_fails [OF that, of fmt] unfolding tip .
  have msgs: "length_tip = ''Length of Coupon Code must be between 3 and 128.''"
    "date_tip = ''Expiration date must use this format: 12/25/2022''"
    by (simp_all add: length_tip_def date_tip_def)
  from short date ok msgs show ?thesis by blast
qed

theorem save_reports_first_failure_witness:
  "length (fieldVal short_code_page CouponCode) < 3
   \<and> \<not> regexp_test date_regexp (fieldVal short_code_page CouponExpiresDate)
   \<and> saveNewPlan id short_code_page =
        Inr (False, short_code_page\<lparr>errorClass := {CouponCode},
               tipsText := ''Length of Coupon Code must be between 3 and 128.'',
               tipsHighlight := True, timeouts := [500]\<rparr>)
   \<and> 3 \<le> length (fieldVal bad_date_page CouponCode)
   \<and> length (fieldVal bad_date_page CouponCode) \<le> 128
   \<and> fieldVal bad_date_page CouponExpiresDate \<noteq> []
   \<and> \<not> regexp_test date_regexp (fieldVal bad_date_page CouponExpiresDate)
   \<and> saveNewPlan id bad_date_page =
        Inr (False, bad_date_page\<lparr>errorClass := {CouponExpiresDate},
               tipsText := ''Expiration date must use this format: 12/25/2022'',
               tipsHighlight := True, timeouts := [500]\<rparr>)"
proof -
  have a: "fieldVal short_code_page CouponCode = ''ab''"
    "fieldVal short_code_page CouponExpiresDate = ''xyz''"
    by (simp_all add: short_code_page_def fill_val)
  have b: "fieldVal bad_date_page CouponCode = ''SAVE10''"
    "fieldVal bad_date_page CouponExpiresDate = ''tomorrow''"
    by (simp_all add: bad_date_page_def fill_val)
  have ra: "expires short_code_page = ''''" "timeouts short_code_page = []"
    by (simp_all add: short_code_page_def fill_rest blank_page_def)
  have rb: "expires bad_date_page = ''''" "timeouts bad_date_page = []"
    by (simp_all add: bad_date_page_def fill_rest blank_page_def)
  have ea: "short_code_page\<lparr>errorClass := e, expires := '''', tipsText := t,
              tipsHighlight := True, timeouts := timeouts short_code_page @ [500]\<rparr> =
            short_code_page\<lparr>errorClass := e, tipsText := t, tipsHighlight := True,
              timeouts := [500]\<rparr>" for e t
    using ra by (cases short_code_page) simp
  have eb: "bad_date_page\<lparr>errorClass := e, expires := '''', tipsText := t,
              tipsHighlight := True, timeouts := timeouts bad_date_page @ [500]\<rparr> =
            bad_date_page\<lparr>errorClass := e, tipsText := t, tipsHighlight := True,
              timeouts := [500]\<rparr>" for e t
    using rb by (cases bad_date_page) simp
  show ?thesis
    using save_reports_first_failure [of short_code_page id]
      save_reports_first_failure [of bad_date_page id] not_a_date
    unfolding a b ea eb by simp
qed

text \<open>
  Claim C4 as stated fails: on a form whose coupon code is too short and whose date is
  malformed both checks fail when called on their own, but the pass only runs the first:
  it shows the length message, not the date message of the last failing check, starts one
  timer and leaves the date field without the error class.
\<close>

theorem save_last_failure_not_shown:
  "fst (checkLength CouponCode ''Coupon Code'' 3 128 short_code_page) = False
   \<and> fst (checkRegexp CouponExpiresDate date_regexp date_tip short_code_page) = False
   \<and> saveNewPlan id short_code_page =
       Inr (False, short_code_page\<lparr>errorClass := {CouponCode}, tipsText := length_tip,
              tipsHighlight := True, timeouts := [500]\<rparr>)
   \<and> length_tip \<noteq> date_tip"
proof -
  have a: "fieldVal short_code_page CouponCode = ''ab''"
    "fieldVal short_code_page CouponExpiresDate = ''xyz''"
    by (simp_all add: short_code_page_def fill_val)
  have r: "expires short_code_page = ''''" "timeouts short_code_page = []"
    by (simp_all add: short_code_page_def fill_rest blank_page_def)
  have c1: "fst (checkLength CouponCode ''Coupon Code'' 3 128 short_code_page) = False"
    by (simp add: checkLength_coupon a)
  have c2: "fst (checkRegexp CouponExpiresDate date_regexp date_tip short_code_page) = False"
    by (simp add: checkRegexp_def a not_a_date)
  have "updateTips length_tip (short_code_page\<lparr>errorClass := {CouponCode}, expires := ''''\<rparr>) =
        short_code_page\<lparr>errorClass := {CouponCode}, tipsText := length_tip,
              tipsHighlight := True, timeouts := [500]\<rparr>"
    using r by (cases short_code_page) (simp add: updateTips_def)
  then have c3: "saveNewPlan id short_code_page =
       Inr (False, short_code_page\<lparr>errorClass := {CouponCode}, tipsText := length_tip,
              tipsHighlight := True, timeouts := [500]\<rparr>)"
    using save_length_fails [of short_code_page id] a by simp
  have c4: "length_tip \<noteq> date_tip"
    by (simp add: length_tip_def date_tip_def)
  from c1 c2 c3 c4 show ?thesis by blast
qed

section \<open>The limit parameter: proofs\<close>

lemma includes_str_iff: "includes_str s pat = (\<exists>a b. s = a @ pat @ b)"
proof (induction s)
  case Nil
  then show ?case by simp
next
  case (Cons x xs)
  have pre: "(take (length pat) (x # xs) = pat) = (\<exists>b. x # xs = pat @ b)"
  proof
    assume "take (length pat) (x # xs) = pat"
    then have "x # xs = pat @ drop (length pat) (x # xs)"
      by (metis append_take_drop_id)
    then show "\<exists>b. x # xs = pat @ b" ..
  next
    assume "\<exists>b. x # xs = pat @ b"
    then show "take (length pat) (x # xs) = pat" by auto
  qed
  have "(\<exists>a b. x # xs = a @ pat @ b) = ((\<exists>b. x # xs = pat @ b) \<or> (\<exists>a b. xs = a @ pat @ b))"
  proof
    assume "\<exists>a b. x # xs = a @ pat @ b"
    then obtain a b where ab: "x # xs = a @ pat @ b" by blast
    show "(\<exists>b. x # xs = pat @ b) \<or> (\<exists>a b. xs = a @ pat @ b)"
    proof (cases a)
      case Nil
      with ab show ?thesis by auto
    next
      case (Cons y ys)
      with ab have "xs = ys @ pat @ b" by simp
      then show ?thesis by blast
    qed
  next
    assume "(\<exists>b. x # xs = pat @ b) \<or> (\<exists>a b. xs = a @ pat @ b)"
    then show "\<exists>a b. x # xs = a @ pat @ b"
    proof
      assume "\<exists>b. x # xs = pat @ b"
      then obtain b where "x # xs = [] @ pat @ b" by auto
      then show ?thesis by blast
    next
      assume "\<exists>a b. xs = a @ pat @ b"
      then obtain a b where "x # xs = (x # a) @ pat @ b" by auto
      then show ?thesis by blast
    qed
  qed
  with Cons pre show ?case by simp
qed

lemma indexOf_first: "c \<notin> set a \<Longrightarrow> indexOf c (a @ c # b) = int (length a)"
  by (induction a) (auto simp: Let_def)

lemma lastIndexOf_last:
  assumes "c \<notin> set suf"
  shows "lastIndexOf c (pre @ c # suf) = int (length pre)"
proof -
  have "indexOf c (rev (pre @ c # suf)) = int (length suf)"
    using indexOf_first [of c "rev suf" "rev pre"] assms by simp
  then show ?thesis by (simp add: lastIndexOf_def)
qed

lemma slice_after: "slice (pre @ c # suf) (int (length pre) + 1) = suf"
proof -
  have "nat (int (length pre) + 1) = Suc (length pre)" by simp
  then show ?thesis by (simp add: slice_def)
qed

text \<open>
  Claim C9. \<open>getLimitFromUrl\<close> returns the number 0 when \<open>?limit=\<close> does not occur in
  the URL. When it occurs, the result is the text that follows the last \<open>=\<close> of the whole
  URL, so a parameter after the limit takes its place: for
  \<open>https://example.org/plans?limit=5&page=2\<close> the result is \<open>2\<close>.
\<close>

theorem getLimitFromUrl_after_last_equals:
  "((\<nexists>a b. url = a @ ''?limit='' @ b) \<longrightarrow> getLimitFromUrl url = Num (Fin 0))
   \<and> ((\<exists>a b. url = a @ ''?limit='' @ b) \<and> url = pre @ ''='' @ suf \<and> CHR ''='' \<notin> set suf \<longrightarrow>
        getLimitFromUrl url = Str suf)
   \<and> ((\<exists>a b. url = a @ ''?limit='' @ b) \<longrightarrow>
        (\<exists>p s. url = p @ ''='' @ s \<and> CHR ''='' \<notin> set s \<and> getLimitFromUrl url = Str s))
   \<and> getLimitFromUrl ''https://example.org/plans?limit=5&page=2'' = Str ''2''"
proof -
  have absent: "getLimitFromUrl url = Num (Fin 0)" if "\<nexists>a b. url = a @ ''?limit='' @ b"
    using that by (simp add: getLimitFromUrl_def includes_str_iff)
  have present: "getLimitFromUrl u = Str s"
    if "\<exists>a b. u = a @ ''?limit='' @ b" "u = p @ ''='' @ s" "CHR ''='' \<notin> set s" for u p s
  proof -
    have "includes_str u ''?limit=''" using that(1) by (simp only: includes_str_iff)
    moreover have "slice u (lastIndexOf CHR ''='' u + 1) = s"
      using lastIndexOf_last [OF that(3), of p] slice_after [of p "CHR ''=''" s] that(2) by simp
    ultimately show ?thesis by (simp add: getLimitFromUrl_def)
  qed
  have some: "\<exists>p s. url = p @ ''='' @ s \<and> CHR ''='' \<notin> set s \<and> getLimitFromUrl url = Str s"
    if inc: "\<exists>a b. url = a @ ''?limit='' @ b"
  proof -
    from inc have "CHR ''='' \<in> set url" by auto
    then obtain p s where ps: "url = p @ CHR ''='' # s" "CHR ''='' \<notin> set s"
      by (meson split_list_last)
    then have "url = p @ ''='' @ s" by simp
    with present [OF inc this ps(2)] ps(2) show ?thesis by blast
  qed
  have ex: "getLimitFromUrl ''https://example.org/plans?limit=5&page=2'' = Str ''2''"
  proof (rule present [of _ "''https://example.org/plans?limit=5&page''"])
    have "''https://example.org/plans?limit=5&page=2'' =
            ''https://example.org/plans'' @ ''?limit='' @ ''5&page=2''" by simp
    then show "\<exists>a b. ''https://example.org/plans?limit=5&page=2'' = a @ ''?limit='' @ b"
      by blast
  qed simp_all
  from absent present [of url pre suf] some ex show ?thesis by blast
qed

theorem getLimitFromUrl_after_last_equals_witness:
  "getLimitFromUrl ''/plans'' = Num (Fin 0)
   \<and> ''/plans?limit=25&sort=asc'' = ''/plans?limit=25&sort'' @ ''='' @ ''asc''
   \<and> CHR ''='' \<notin> set ''asc''
   \<and> getLimitFromUrl ''/plans?limit=25&sort=asc'' = Str ''asc''"
proof -
  have none: "\<nexists>a b. ''/plans'' = a @ ''?limit='' @ b"
  proof -
    have "\<not> includes_str ''/plans'' ''?limit=''" by simp
    then show ?thesis by (simp only: includes_str_iff not_False_eq_True)
  qed
  have inc: "\<exists>a b. ''/plans?limit=25&sort=asc'' = a @ ''?limit='' @ b"
  proof -
    have "includes_str ''/plans?limit=25&sort=asc'' ''?limit=''" by simp
    then show ?thesis by (simp only: includes_str_iff)
  qed
  have dec: "''/plans?limit=25&sort=asc'' = ''/plans?limit=25&sort'' @ ''='' @ ''asc''"
    and last: "CHR ''='' \<notin> set ''asc''" by simp_all
  show ?thesis
    using getLimitFromUrl_after_last_equals [of "''/plans''" "''''" "''''"] none
      getLimitFromUrl_after_last_equals
        [of "''/plans?limit=25&sort=asc''" "''/plans?limit=25&sort''" "''asc''"] inc dec last
    by blast
qed

section \<open>Two inputs the checks let through\<close>

text \<open>
  Claim C3 on the code. \<open>checkNumber\<close> hands the field's string to \<open>Number.isNaN\<close>, which
  converts nothing and is false for every string. With list price \<open>abc\<close> the check
  returns valid and changes nothing, and the pass goes on to request a plan with list
  price \<open>abc00\<close>.
\<close>

theorem checkNumber_accepts_abc:
  "fieldVal abc_price_page ListPriceMonthlyCredit = ''abc''
   \<and> Number_isNaN (Str ''abc'') = False
   \<and> checkNumber ListPriceMonthlyCredit ''List Price Monthly'' abc_price_page
       = (True, abc_price_page)
   \<and> saveNewPlan id abc_price_page =
       Inr (True, abc_price_page\<lparr>requests :=
              [GetJSON ''https://example.org/apis/v1/createNewPlan''
                 \<lparr>couponCode = ''SAVE10'', planTypeEnum = '''', couponAppliedMessage = '''',
                  hiddenPlanComment = '''', listPriceMonthlyCredit = ''abc00'',
                  discountedPriceMonthlyCredit = '''', featuresProvidedBitmap = '''',
                  couponExpiresDate = ''''\<rparr>]\<rparr>)"
proof -
  have v: "fieldVal abc_price_page f =
      (if f = CouponCode then ''SAVE10'' else if f = ListPriceMonthlyCredit then ''abc'' else '''')"
    for f
    by (simp add: abc_price_page_def fill_val blank_page_def)
  have r: "errorClass abc_price_page = {}" "expires abc_price_page = ''''"
    "requests abc_price_page = []" "origin abc_price_page = ''https://example.org''"
    by (simp_all add: abc_price_page_def fill_rest blank_page_def)
  have lp: "dollarsToCents (fieldVal abc_price_page ListPriceMonthlyCredit) = Inr ''abc00''"
    using dollarsToCents_nodot [of "''abc''"] by (simp add: v)
  have dp: "dollarsToCents (fieldVal abc_price_page DiscountedPriceMonthlyCredit) = Inr ''''"
    using dollarsToCents_nodot [of "''''"] by (simp add: v)
  have same: "abc_price_page\<lparr>errorClass := {}, expires := '''', requests := rs\<rparr> =
          abc_price_page\<lparr>requests := rs\<rparr>" for rs
    using r(1,2) by (cases abc_price_page) simp
  have "saveNewPlan id abc_price_page =
       Inr (True, abc_price_page\<lparr>requests :=
              [GetJSON ''https://example.org/apis/v1/createNewPlan''
                 \<lparr>couponCode = ''SAVE10'', planTypeEnum = '''', couponAppliedMessage = '''',
                  hiddenPlanComment = '''', listPriceMonthlyCredit = ''abc00'',
                  discountedPriceMonthlyCredit = '''', featuresProvidedBitmap = '''',
                  couponExpiresDate = ''''\<rparr>]\<rparr>)"
    using save_passes [OF _ _ _ lp dp, of id] by (simp add: v r same)
  then show ?thesis
    by (simp add: v checkNumber_passes)
qed

text \<open>
  Claim C5 on the code. The pattern ends in \<open>+\<close> after the group, so a date written
  twice in a row, twenty characters long, matches it: the pass accepts the form, converts
  the text and sends it as the expiration date.
\<close>

theorem save_accepts_doubled_date:
  "fieldVal doubled_date_page CouponExpiresDate = ''12/25/202212/25/2022''
   \<and> length (fieldVal doubled_date_page CouponExpiresDate) = 20
   \<and> \<not> date_shape ''12/25/202212/25/2022''
   \<and> regexp_test date_regexp ''12/25/202212/25/2022''
   \<and> saveNewPlan id doubled_date_page =
       Inr (True, doubled_date_page\<lparr>expires := ''12/25/202212/25/2022'', requests :=
              [GetJSON ''https://example.org/apis/v1/createNewPlan''
                 \<lparr>couponCode = ''SAVE10'', planTypeEnum = '''', couponAppliedMessage = '''',
                  hiddenPlanComment = '''', listPriceMonthlyCredit = '''',
                  discountedPriceMonthlyCredit = '''', featuresProvidedBitmap = '''',
                  couponExpiresDate = ''12/25/202212/25/2022''\<rparr>]\<rparr>)"
proof -
  have v: "fieldVal doubled_date_page f =
      (if f = CouponCode then ''SAVE10''
       else if f = CouponExpiresDate then ''12/25/202212/25/2022'' else '''')"
    for f
    by (simp add: doubled_date_page_def fill_val blank_page_def)
  have r: "errorClass doubled_date_page = {}" "expires doubled_date_page = ''''"
    "requests doubled_date_page = []" "origin doubled_date_page = ''https://example.org''"
    by (simp_all add: doubled_date_page_def fill_rest blank_page_def)
  have lp: "dollarsToCents (fieldVal doubled_date_page ListPriceMonthlyCredit) = Inr ''''"
    and dp: "dollarsToCents (fieldVal doubled_date_page DiscountedPriceMonthlyCredit) = Inr ''''"
    using dollarsToCents_nodot [of "''''"] by (simp_all add: v)
  have same: "doubled_date_page\<lparr>errorClass := {}, expires := e, requests := rs\<rparr> =
          doubled_date_page\<lparr>expires := e, requests := rs\<rparr>" for rs e
    using r(1) by (cases doubled_date_page) simp
  have "saveNewPlan id doubled_date_page =
       Inr (True, doubled_date_page\<lparr>expires := ''12/25/202212/25/2022'', requests :=
              [GetJSON ''https://example.org/apis/v1/createNewPlan''
                 \<lparr>couponCode = ''SAVE10'', planTypeEnum = '''', couponAppliedMessage = '''',
                  hiddenPlanComment = '''', listPriceMonthlyCredit = '''',
                  discountedPriceMonthlyCredit = '''', featuresProvidedBitmap = '''',
                  couponExpiresDate = ''12/25/202212/25/2022''\<rparr>]\<rparr>)"
    using save_passes [OF _ _ _ lp dp, of id] doubled_date by (simp add: v r same)
  then show ?thesis
    using doubled_date by (simp add: v)
qed

end
